theory Spec2Isabelle
  imports Main "HOL-Library.Word"
begin

section \<open>Strings, bytes and paths\<close>

text \<open>
  A Python \<open>str\<close> is a sequence of Unicode code points; a file's content is a sequence
  of bytes. A path below the scan root is the tuple \<open>relative.parts\<close> of its components.
  \<open>str s\<close> is the \<open>str\<close> of an ASCII literal of the source.
\<close>

type_synonym codepoint = nat
type_synonym pystr = "codepoint list"
type_synonym byte = "8 word"
type_synonym path = "pystr list"

definition str :: "string \<Rightarrow> pystr" where
  "str s = map of_char s"

section \<open>The regular expressions of \<open>_PATTERNS\<close>\<close>

text \<open>
  Every pattern of the source is a sequence of pieces, each a set of characters with a
  repetition count: a literal character is a singleton set repeated once,
  \<open>[A-Za-z0-9]{20,}\<close> a class repeated 20 times or more, \<open>\s+\<close> the whitespace class
  repeated once or more. All repetitions are greedy.

  \<open>match_lens r t\<close> lists the lengths of all matches of \<open>r\<close> at the start of \<open>t\<close> in
  the order in which the backtracking matcher of \<open>re\<close> tries them: each piece first
  takes as many characters as it can and gives them back one at a time.
\<close>

datatype piece = Piece (accepts: "codepoint \<Rightarrow> bool") (min_rep: nat) (max_rep: "nat option")

type_synonym regex = "piece list"

definition greedy_count :: "piece \<Rightarrow> pystr \<Rightarrow> nat" where
  "greedy_count p t =
     (let k = length (takeWhile (accepts p) t)
      in case max_rep p of None \<Rightarrow> k | Some m \<Rightarrow> min k m)"

fun match_lens :: "regex \<Rightarrow> pystr \<Rightarrow> nat list" where
  "match_lens [] t = [0]"
| "match_lens (p # ps) t =
     concat (map (\<lambda>j. map (\<lambda>n. j + n) (match_lens ps (drop j t)))
                 (rev [min_rep p ..< Suc (greedy_count p t)]))"

text \<open>
  One attempt of the matcher at the start of \<open>t\<close>: the first alternative wins. After an
  empty match the scanner sets \<open>must_advance\<close>, and an alternative that is empty again
  is rejected. \<open>fullmatch\<close> accepts the alternatives that end at the end of the text.
\<close>

definition match_at :: "regex \<Rightarrow> pystr \<Rightarrow> bool \<Rightarrow> nat option" where
  "match_at r t must_advance = List.find (\<lambda>n. must_advance \<longrightarrow> 0 < n) (match_lens r t)"

definition fullmatch :: "regex \<Rightarrow> pystr \<Rightarrow> bool" where
  "fullmatch r t = (length t \<in> set (match_lens r t))"

text \<open>
  \<open>regex.search\<close> from position \<open>pos\<close>: the leftmost position at which an attempt
  succeeds, as the span \<open>(start, end)\<close> of the match. Only the first attempt is under
  \<open>must_advance\<close>.
\<close>

function search :: "regex \<Rightarrow> pystr \<Rightarrow> nat \<Rightarrow> bool \<Rightarrow> (nat \<times> nat) option" where
  "search r t pos must_advance =
     (if length t < pos then None
      else case match_at r (drop pos t) must_advance of
             Some n \<Rightarrow> Some (pos, pos + n)
           | None \<Rightarrow> search r t (Suc pos) False)"
  by pat_completeness auto
termination
  by (relation "measure (\<lambda>(r, t, pos, ma). Suc (length t) - pos)") auto

text \<open>
  \<open>regex.finditer\<close>: the scanner searches again from the end of the last match, with
  \<open>must_advance\<close> set when that match was empty.
\<close>

function finditer_from :: "regex \<Rightarrow> pystr \<Rightarrow> nat \<Rightarrow> bool \<Rightarrow> (nat \<times> nat) list" where
  "finditer_from r t pos must_advance =
     (case search r t pos must_advance of
        None \<Rightarrow> []
      | Some (s, e) \<Rightarrow> (s, e) # finditer_from r t e (s = e))"
  by pat_completeness auto

lemma match_lens_le: "n \<in> set (match_lens r t) \<Longrightarrow> n \<le> length t"
proof (induction r arbitrary: n t)
  case Nil
  then show ?case by simp
next
  case (Cons p ps)
  from Cons.prems have "\<exists>j m. j < Suc (greedy_count p t) \<and>
      m \<in> set (match_lens ps (drop j t)) \<and> n = j + m"
    by (simp only: match_lens.simps set_concat set_map set_rev set_upt) (force simp: image_iff)
  then obtain j m where j: "j < Suc (greedy_count p t)"
    and m: "m \<in> set (match_lens ps (drop j t))" and n: "n = j + m"
    by blast
  have "greedy_count p t \<le> length t"
    using length_takeWhile_le [of "accepts p" t]
    by (auto simp: greedy_count_def Let_def split: option.splits)
  with j have "j \<le> length t" by simp
  moreover from Cons.IH [OF m] have "m \<le> length t - j" by simp
  ultimately show ?case using n by simp
qed

lemma find_Some_set: "List.find P xs = Some x \<Longrightarrow> x \<in> set xs \<and> P x"
  by (induction xs) (auto split: if_splits)

lemma match_at_le: "match_at r t ma = Some n \<Longrightarrow> n \<le> length t"
  unfolding match_at_def by (blast dest: find_Some_set match_lens_le)

lemma match_at_advance: "match_at r t True = Some n \<Longrightarrow> 0 < n"
  unfolding match_at_def by (auto dest: find_Some_set)

lemma search_span:
  "search r t pos ma = Some (s, e) \<Longrightarrow>
     pos \<le> s \<and> s \<le> e \<and> e \<le> length t \<and> (ma \<longrightarrow> pos < e)"
proof (induction r t pos ma rule: search.induct)
  case (1 r t pos ma)
  show ?case
  proof (cases "length t < pos")
    case True
    with "1.prems" show ?thesis by simp
  next
    case False
    show ?thesis
    proof (cases "match_at r (drop pos t) ma")
      case None
      with False "1.prems" have "search r t (Suc pos) False = Some (s, e)" by simp
      from "1.IH" [OF False None this] show ?thesis by auto
    next
      case (Some n)
      with False "1.prems" have se: "s = pos" "e = pos + n" by simp_all
      from match_at_le [OF Some] False have "pos + n \<le> length t" by simp
      moreover have "ma \<longrightarrow> 0 < n" using Some match_at_advance by auto
      ultimately show ?thesis using se by auto
    qed
  qed
qed

termination finditer_from
proof (relation "measures [\<lambda>(r, t, pos, ma). Suc (length t) - pos,
                           \<lambda>(r, t, pos, ma). if ma then 0 else 1]")
  show "wf (measures [\<lambda>(r, t, pos, ma). Suc (length t) - pos,
                      \<lambda>(r, t, pos, ma). if ma then 0 else (1::nat)])"
    by simp
next
  fix r :: regex and t :: pystr and pos :: nat and must_advance :: bool
    and x2 :: "nat \<times> nat" and s e :: nat
  assume "search r t pos must_advance = Some x2" and "(s, e) = x2"
  then have "search r t pos must_advance = Some (s, e)" by simp
  from search_span [OF this]
  show "((r, t, e, s = e), (r, t, pos, must_advance))
          \<in> measures [\<lambda>(r, t, pos, ma). Suc (length t) - pos,
                       \<lambda>(r, t, pos, ma). if ma then 0 else 1]"
    by auto
qed

definition finditer :: "regex \<Rightarrow> pystr \<Rightarrow> (nat \<times> nat) list" where
  "finditer r t = finditer_from r t 0 False"

text \<open>\<open>match.group(0)\<close>: the slice of the text between the ends of the span.\<close>

definition group0 :: "pystr \<Rightarrow> nat \<times> nat \<Rightarrow> pystr" where
  "group0 t m = take (snd m - fst m) (drop (fst m) t)"

subsection \<open>Character classes\<close>

text \<open>
  \<open>[A-Za-z0-9]\<close>, case-sensitive: the ASCII letters and digits.
\<close>

definition ascii_alnum :: "codepoint \<Rightarrow> bool" where
  "ascii_alnum c = ((65 \<le> c \<and> c \<le> 90) \<or> (97 \<le> c \<and> c \<le> 122) \<or> (48 \<le> c \<and> c \<le> 57))"

text \<open>
  \<open>\s\<close> in a \<open>str\<close> pattern: the Unicode whitespace characters, which are the six ASCII
  ones \<open>[ \t\n\r\f\v]\<close>, the separators U+001C to U+001F, and the spaces beyond ASCII.
\<close>

definition unicode_space :: "codepoint \<Rightarrow> bool" where
  "unicode_space c =
     ((9 \<le> c \<and> c \<le> 13) \<or> (28 \<le> c \<and> c \<le> 32) \<or> c = 133 \<or> c = 160 \<or> c = 5760 \<or>
      (8192 \<le> c \<and> c \<le> 8202) \<or> c = 8232 \<or> c = 8233 \<or> c = 8239 \<or> c = 8287 \<or> c = 12288)"

text \<open>
  \<open>[A-Za-z0-9-_]\<close> under \<open>re.IGNORECASE\<close>: a hyphen after a range is a literal, so the
  class is the ASCII letters and digits, \<open>-\<close> and \<open>_\<close>; and in a \<open>str\<close> pattern the
  flag adds the four letters beyond ASCII whose case folding meets an ASCII letter:
  U+0130, U+0131 (for \<open>i\<close>), U+017F (for \<open>s\<close>) and U+212A (for \<open>k\<close>).
\<close>

definition token_char_ignorecase :: "codepoint \<Rightarrow> bool" where
  "token_char_ignorecase c =
     (ascii_alnum c \<or> c = 45 \<or> c = 95 \<or> c = 304 \<or> c = 305 \<or> c = 383 \<or> c = 8490)"

text \<open>
  A literal character, and a literal lower-case ASCII letter under \<open>re.IGNORECASE\<close>. The
  letters of \<open>bearer\<close> have no case variant beyond ASCII, so each matches itself and its
  capital, 32 below.
\<close>

definition lit :: "codepoint \<Rightarrow> piece" where
  "lit c = Piece (\<lambda>x. x = c) 1 (Some 1)"

definition lit_ignorecase :: "codepoint \<Rightarrow> piece" where
  "lit_ignorecase c = Piece (\<lambda>x. x = c \<or> x + 32 = c) 1 (Some 1)"

definition literal :: "string \<Rightarrow> regex" where
  "literal s = map (\<lambda>c. lit (of_char c)) s"

definition literal_ignorecase :: "string \<Rightarrow> regex" where
  "literal_ignorecase s = map (\<lambda>c. lit_ignorecase (of_char c)) s"

subsection \<open>The pattern list\<close>

definition openai_secret :: regex where
  "openai_secret = literal ''sk-'' @ [Piece ascii_alnum 20 None]"

definition openai_project_token :: regex where
  "openai_project_token = literal ''proj-'' @ [Piece ascii_alnum 20 None]"

definition pinecone_server_key :: regex where
  "pinecone_server_key = literal ''pcsk_'' @ [Piece ascii_alnum 20 None]"

definition generic_bearer_token :: regex where
  "generic_bearer_token =
     literal_ignorecase ''bearer'' @ [Piece unicode_space 1 None, Piece token_char_ignorecase 20 None]"

definition PATTERNS :: "(pystr \<times> regex) list" where
  "PATTERNS =
     [(str ''OpenAI secret'', openai_secret),
      (str ''OpenAI project token'', openai_project_token),
      (str ''Pinecone server key'', pinecone_server_key),
      (str ''Generic bearer token'', generic_bearer_token)]"

section \<open>Reading a file as text\<close>

text \<open>
  \<open>path.read_text(encoding="utf-8", errors="ignore")\<close> decodes the bytes of the file
  and translates line ends. The decoder with \<open>errors="ignore"\<close> drops what it cannot
  decode and goes on behind it: one byte for a byte that cannot start a sequence, the bytes
  read so far for a sequence broken by a byte that cannot continue it, and the rest of
  the input for a sequence cut off by the end of the file. A second byte that would make
  the sequence overlong, a surrogate or a code point beyond U+10FFFF does not continue it.
\<close>

definition is_continuation :: "byte \<Rightarrow> bool" where
  "is_continuation b = (0x80 \<le> b \<and> b \<le> 0xBF)"

fun utf8_decode_ignore :: "byte list \<Rightarrow> pystr" where
  "utf8_decode_ignore [] = []"
| "utf8_decode_ignore (b0 # bs) =
     (if b0 < 0x80 then unat b0 # utf8_decode_ignore bs
      else if b0 < 0xC2 then utf8_decode_ignore bs
      else if b0 < 0xE0 then
        (case bs of
           [] \<Rightarrow> []
         | b1 # bs1 \<Rightarrow>
             if \<not> is_continuation b1 then utf8_decode_ignore bs
             else (unat b0 mod 32 * 64 + unat b1 mod 64) # utf8_decode_ignore bs1)
      else if b0 < 0xF0 then
        (case bs of
           [] \<Rightarrow> []
         | b1 # bs1 \<Rightarrow>
             if \<not> is_continuation b1 \<or> (if b1 < 0xA0 then b0 = 0xE0 else b0 = 0xED)
             then utf8_decode_ignore bs
             else
               (case bs1 of
                  [] \<Rightarrow> []
                | b2 # bs2 \<Rightarrow>
                    if \<not> is_continuation b2 then utf8_decode_ignore bs1
                    else (unat b0 mod 16 * 4096 + unat b1 mod 64 * 64 + unat b2 mod 64)
                           # utf8_decode_ignore bs2))
      else if b0 < 0xF5 then
        (case bs of
           [] \<Rightarrow> []
         | b1 # bs1 \<Rightarrow>
             if \<not> is_continuation b1 \<or> (if b1 < 0x90 then b0 = 0xF0 else b0 = 0xF4)
             then utf8_decode_ignore bs
             else
               (case bs1 of
                  [] \<Rightarrow> []
                | b2 # bs2 \<Rightarrow>
                    if \<not> is_continuation b2 then utf8_decode_ignore bs1
                    else
                      (case bs2 of
                         [] \<Rightarrow> []
                       | b3 # bs3 \<Rightarrow>
                           if \<not> is_continuation b3 then utf8_decode_ignore bs2
                           else (unat b0 mod 8 * 262144 + unat b1 mod 64 * 4096
                                   + unat b2 mod 64 * 64 + unat b3 mod 64)
                                  # utf8_decode_ignore bs3)))
      else utf8_decode_ignore bs)"

text \<open>
  Text mode with the default \<open>newline=None\<close>: \<open>\r\n\<close> and a lone \<open>\r\<close> are read as
  \<open>\n\<close>.
\<close>

fun universal_newlines :: "pystr \<Rightarrow> pystr" where
  "universal_newlines [] = []"
| "universal_newlines [c] = [if c = 13 then 10 else c]"
| "universal_newlines (c # d # cs) =
     (if c = 13 \<and> d = 10 then 10 # universal_newlines cs
      else if c = 13 then 10 # universal_newlines (d # cs)
      else c # universal_newlines (d # cs))"

section \<open>The file system\<close>

text \<open>
  What a run sees of the file system: the resolved root \<open>Path(args.path).resolve()\<close> as
  a string, whether it exists, the paths \<open>root.rglob("*")\<close> yields in their order, and for
  each path the answers of \<open>is_file\<close>, of \<open>stat\<close> (its size, or \<open>None\<close> for an
  \<open>OSError\<close>) and of opening and reading it (its bytes, or \<open>None\<close> for an
  \<open>OSError\<close>). The answers are independent of one another, so a file that vanishes
  between \<open>is_file\<close> and \<open>stat\<close> is a world like any other. \<open>rglob\<close> and
  \<open>is_file\<close> are taken to answer: the source handles no error of theirs.
\<close>

record world =
  resolved :: pystr
  root_exists :: bool
  rglob :: "path list"
  is_file :: "path \<Rightarrow> bool"
  st_size :: "path \<Rightarrow> nat option"
  read_bytes :: "path \<Rightarrow> byte list option"

text \<open>The file system operations of a run, in the order in which it performs them.\<close>

datatype fs_op = Exists | Rglob | IsFile path | Stat path | ReadText path

definition read_text :: "world \<Rightarrow> path \<Rightarrow> pystr option" where
  "read_text w p = map_option (\<lambda>bs. universal_newlines (utf8_decode_ignore bs)) (read_bytes w p)"

text \<open>
  \<open>str(candidate)\<close> for a path below the root: the components joined to the root with
  the separator of POSIX paths.
\<close>

definition join_path :: "pystr \<Rightarrow> pystr \<Rightarrow> pystr" where
  "join_path base part = (if base \<noteq> [] \<and> last base = 47 then base @ part else base @ [47] @ part)"

definition path_str :: "world \<Rightarrow> path \<Rightarrow> pystr" where
  "path_str w p = foldl join_path (resolved w) p"

section \<open>Traversal: \<open>iter_candidate_files\<close>\<close>

definition DEFAULT_IGNORES :: "pystr set" where
  "DEFAULT_IGNORES =
     {str ''.git'', str ''.github'', str ''DerivedData'', str ''build'', str ''node_modules'',
      str ''Pods'', str ''scripts/__pycache__''}"

text \<open>
  The generator is the sequence of what it does: an operation on the file system, or a
  path handed to the consumer. \<open>iter_step\<close> is the body of its loop for one path of
  \<open>rglob\<close>.
\<close>

datatype gen_event = Op fs_op | Yield path

definition iter_step :: "world \<Rightarrow> pystr set \<Rightarrow> path \<Rightarrow> gen_event list" where
  "iter_step w ignore_prefixes p =
     Op (IsFile p) #
     (if \<not> is_file w p then []
      else if list_ex (\<lambda>part. part \<in> ignore_prefixes) p then []
      else Op (Stat p) #
        (case st_size w p of
           None \<Rightarrow> []
         | Some st_size_p \<Rightarrow> if st_size_p > 2 * 1024 * 1024 then [] else [Yield p]))"

definition iter_candidate_files :: "world \<Rightarrow> pystr list \<Rightarrow> gen_event list" where
  "iter_candidate_files w extra_ignores =
     (let ignore_prefixes = DEFAULT_IGNORES \<union> set extra_ignores
      in Op Rglob # concat (map (iter_step w ignore_prefixes) (rglob w)))"

text \<open>The paths the generator yields.\<close>

definition yielded :: "gen_event list \<Rightarrow> path list" where
  "yielded es = concat (map (\<lambda>e. case e of Op _ \<Rightarrow> [] | Yield p \<Rightarrow> [p]) es)"

section \<open>Matching: \<open>scan_file\<close>\<close>

definition scan_text :: "pystr \<Rightarrow> (pystr \<times> pystr) list" where
  "scan_text content =
     concat (map (\<lambda>(label, regex). map (\<lambda>m. (label, group0 content m)) (finditer regex content))
                 PATTERNS)"

definition scan_file :: "world \<Rightarrow> path \<Rightarrow> fs_op list \<times> (pystr \<times> pystr) list" where
  "scan_file w p =
     ([ReadText p],
      case read_text w p of
        None \<Rightarrow> []
      | Some content \<Rightarrow> scan_text content)"

section \<open>The command: \<open>main\<close>\<close>

type_synonym finding = "path \<times> pystr \<times> pystr"

text \<open>
  The loop of \<open>main\<close> over the generator: the operations performed, the generator's and
  those of \<open>scan_file\<close> at each yield, and the findings collected.
\<close>

fun collect :: "world \<Rightarrow> gen_event list \<Rightarrow> fs_op list \<times> finding list" where
  "collect w [] = ([], [])"
| "collect w (Op x # es) = (let (ops, fs) = collect w es in (x # ops, fs))"
| "collect w (Yield candidate # es) =
     (let (read_ops, ms) = scan_file w candidate;
          (ops, fs) = collect w es
      in (read_ops @ ops, map (\<lambda>(label, snippet). (candidate, label, snippet)) ms @ fs))"

text \<open>
  \<open>main w exclude\<close> is the run from the point where \<open>parser.parse_args()\<close> has
  returned: \<open>exclude\<close> is \<open>args.exclude\<close>, and \<open>args.path\<close> is in the world as
  the root it resolves to.

  What a run leaves: the exit status, the strings printed to each stream (one per call of
  \<open>print\<close>, which ends each with a line feed), the list \<open>findings\<close> (\<open>None\<close> where the
  run returns before the list exists) and the operations on the file system.
\<close>

record outcome =
  exit_code :: int
  stdout :: "pystr list"
  stderr :: "pystr list"
  findings :: "finding list option"
  fs_ops :: "fs_op list"

definition finding_line :: "world \<Rightarrow> finding \<Rightarrow> pystr" where
  "finding_line w f =
     (case f of (candidate, label, snippet) \<Rightarrow>
        str ''  '' @ path_str w candidate @ str '': '' @ label @ str '' -> '' @ take 60 snippet)"

definition main :: "world \<Rightarrow> pystr list \<Rightarrow> outcome" where
  "main w exclude =
     (if \<not> root_exists w then
        \<lparr>exit_code = 2, stdout = [],
         stderr = [str ''error: path '' @ [39] @ resolved w @ [39] @ str '' does not exist''],
         findings = None, fs_ops = [Exists]\<rparr>
      else
        (let (ops, fs) = collect w (iter_candidate_files w exclude) in
         if fs \<noteq> [] then
           \<lparr>exit_code = 1, stdout = [],
            stderr = [str ''Detected potential secrets:''] @ map (finding_line w) fs @
              [[10] @ str ''Remove these values or move them to secure storage before proceeding.''],
            findings = Some fs, fs_ops = Exists # ops\<rparr>
         else
           \<lparr>exit_code = 0, stdout = [[226, 339, 8230] @ str '' No secret patterns detected.''],
            stderr = [], findings = Some fs, fs_ops = Exists # ops\<rparr>))"

section \<open>Derived notions and example worlds\<close>

text \<open>The findings a run collected; none where it returned before collecting.\<close>

definition reported :: "outcome \<Rightarrow> finding list" where
  "reported out = (case findings out of None \<Rightarrow> [] | Some fs \<Rightarrow> fs)"

text \<open>The three filters of the generator's loop, as a predicate on a path.\<close>

definition passes :: "world \<Rightarrow> pystr set \<Rightarrow> path \<Rightarrow> bool" where
  "passes w ign p =
     (is_file w p \<and> \<not> list_ex (\<lambda>part. part \<in> ign) p \<and>
      (case st_size w p of None \<Rightarrow> False | Some n \<Rightarrow> n \<le> 2097152))"


text \<open>
  A small tree: a file with an OpenAI key, the same file below the ignored \<open>build\<close>, a
  file of 3 MiB, a file whose \<open>stat\<close> fails, a file that cannot be opened, and a file
  with a bearer token followed by two OpenAI keys below \<open>scripts/__pycache__\<close>.
\<close>

definition secret_bytes :: "byte list" where
  "secret_bytes = map of_char ''sk-AAAAAAAAAAAAAAAAAAAAAAAA''"

definition mixed_bytes :: "byte list" where
  "mixed_bytes = map of_char ''Bearer abcDEF1234567890ZZZZ0000 sk-AAAAAAAAAAAAAAAAAAAAAAAA sk-BBBBBBBBBBBBBBBBBBBBBBBB''"

definition demo_world :: world where
  "demo_world =
     \<lparr>resolved = str ''/repo'', root_exists = True,
      rglob =
        [[str ''a.txt''], [str ''build''], [str ''build'', str ''k.txt''], [str ''big.bin''],
         [str ''gone.txt''], [str ''locked.txt''], [str ''scripts''],
         [str ''scripts'', str ''__pycache__''],
         [str ''scripts'', str ''__pycache__'', str ''c.txt'']],
      is_file = (\<lambda>p. p \<noteq> [str ''build''] \<and> p \<noteq> [str ''scripts''] \<and>
                       p \<noteq> [str ''scripts'', str ''__pycache__'']),
      st_size = (\<lambda>p. if p = [str ''big.bin''] then Some 3145728
                      else if p = [str ''gone.txt''] then None
                      else if p = [str ''scripts'', str ''__pycache__'', str ''c.txt''] then Some 87
                      else Some 27),
      read_bytes = (\<lambda>p. if p = [str ''locked.txt''] then None
                         else if p = [str ''scripts'', str ''__pycache__'', str ''c.txt'']
                           then Some mixed_bytes
                         else Some secret_bytes)\<rparr>"

text \<open>A tree with one file, which holds an OpenAI key; and a root with no files.\<close>

definition leak_world :: world where
  "leak_world =
     \<lparr>resolved = str ''/repo'', root_exists = True, rglob = [[str ''a.txt'']],
      is_file = (\<lambda>p. True), st_size = (\<lambda>p. Some 27), read_bytes = (\<lambda>p. Some secret_bytes)\<rparr>"


text \<open>
  A tree with one file: an OpenAI key between a byte that starts no sequence and a lead
  byte cut off by the end of the file.
\<close>

definition corrupt_bytes :: "byte list" where
  "corrupt_bytes = [0xFF] @ secret_bytes @ [0xC3]"

definition corrupt_world :: world where
  "corrupt_world =
     \<lparr>resolved = str ''/repo'', root_exists = True, rglob = [[str ''a.txt'']],
      is_file = (\<lambda>p. True), st_size = (\<lambda>p. Some 29), read_bytes = (\<lambda>p. Some corrupt_bytes)\<rparr>"

text \<open>
  The language of a pattern, stated without the matcher: the text splits into one segment
  for each piece, of a length the piece allows and of characters it accepts.
\<close>

fun matches :: "regex \<Rightarrow> pystr \<Rightarrow> bool" where
  "matches [] s = (s = [])"
| "matches (p # ps) s =
     (\<exists>j \<le> length s. min_rep p \<le> j \<and> (case max_rep p of None \<Rightarrow> True | Some m \<Rightarrow> j \<le> m) \<and>
        list_all (accepts p) (take j s) \<and> matches ps (drop j s))"

text \<open>
  The shape the specification gives for the bearer pattern: the word \<open>bearer\<close> in any
  letter case, one or more characters of the class \<open>space\<close>, then 20 or more characters
  of the class \<open>token\<close>. \<open>spec_token_char\<close> is the class \<open>[A-Za-z0-9-_]\<close> read as the
  specification writes it.
\<close>

definition ascii_lower :: "codepoint \<Rightarrow> codepoint" where
  "ascii_lower c = (if 65 \<le> c \<and> c \<le> 90 then c + 32 else c)"

definition bearer_shape :: "(codepoint \<Rightarrow> bool) \<Rightarrow> (codepoint \<Rightarrow> bool) \<Rightarrow> pystr \<Rightarrow> bool" where
  "bearer_shape space token s =
     (\<exists>b ws tok. s = b @ ws @ tok \<and> map ascii_lower b = str ''bearer'' \<and>
        ws \<noteq> [] \<and> list_all space ws \<and> 20 \<le> length tok \<and> list_all token tok)"

definition spec_token_char :: "codepoint \<Rightarrow> bool" where
  "spec_token_char c = (ascii_alnum c \<or> c = 45 \<or> c = 95)"

text \<open>
  Spans in the order of their positions, none empty and none overlapping the one before
  it, from position \<open>pos\<close> on.
\<close>

fun ordered_disjoint :: "nat \<Rightarrow> (nat \<times> nat) list \<Rightarrow> bool" where
  "ordered_disjoint pos [] = True"
| "ordered_disjoint pos (m # ms) = (pos \<le> fst m \<and> fst m < snd m \<and> ordered_disjoint (snd m) ms)"

text \<open>
  A pattern is \<open>separated\<close> when no character is accepted by two neighbouring pieces and
  every piece but the first is repeated at least once. The four patterns of the list are
  separated; in a separated pattern a piece that gives back a character it took leaves
  the next piece with a character it rejects.
\<close>

fun separated :: "regex \<Rightarrow> bool" where
  "separated [] = True"
| "separated [p] = True"
| "separated (p # q # r) =
     ((\<forall>c. \<not> (accepts p c \<and> accepts q c)) \<and> 1 \<le> min_rep q \<and> separated (q # r))"

section \<open>Traversal and collection\<close>

lemma yielded_simps [simp]:
  "yielded [] = []"
  "yielded (Op x # es) = yielded es"
  "yielded (Yield p # es) = p # yielded es"
  "yielded (es @ es') = yielded es @ yielded es'"
  by (simp_all add: yielded_def)

lemma yielded_concat: "yielded (concat ess) = concat (map yielded ess)"
  by (induction ess) simp_all

lemma Yield_in_iff: "Yield p \<in> set es \<longleftrightarrow> p \<in> set (yielded es)"
proof (induction es)
  case Nil
  show ?case by simp
next
  case (Cons e es)
  then show ?case by (cases e) auto
qed

lemma yielded_iter_step: "yielded (iter_step w ign p) = (if passes w ign p then [p] else [])"
  by (simp add: iter_step_def passes_def split: option.splits)

lemma yielded_iter_candidate_files:
  "yielded (iter_candidate_files w extra) =
     filter (passes w (DEFAULT_IGNORES \<union> set extra)) (rglob w)"
proof -
  have "concat (map (\<lambda>p. yielded (iter_step w ign p)) ps) = filter (passes w ign) ps" for ign ps
    by (induction ps) (simp_all add: yielded_iter_step)
  then show ?thesis
    by (simp add: iter_candidate_files_def Let_def yielded_concat comp_def)
qed

lemma collect_findings:
  "snd (collect w es) =
     concat (map (\<lambda>p. map (\<lambda>(label, snippet). (p, label, snippet)) (snd (scan_file w p)))
                 (yielded es))"
proof (induction es)
  case Nil
  show ?case by simp
next
  case (Cons e es)
  then show ?case by (cases e) (simp_all add: split_beta Let_def)
qed

lemma collect_ops:
  "fst (collect w es) =
     concat (map (\<lambda>e. case e of Op x \<Rightarrow> [x] | Yield p \<Rightarrow> [ReadText p]) es)"
proof (induction es)
  case Nil
  show ?case by simp
next
  case (Cons e es)
  then show ?case by (cases e) (simp_all add: split_beta Let_def scan_file_def)
qed


lemma main_findings:
  "findings (main w exclude) =
     (if root_exists w then Some (snd (collect w (iter_candidate_files w exclude))) else None)"
  by (simp add: main_def Let_def split_beta)

lemma main_reported:
  "reported (main w exclude) =
     (if root_exists w then snd (collect w (iter_candidate_files w exclude)) else [])"
  by (simp add: reported_def main_findings)

lemma main_fs_ops:
  "fs_ops (main w exclude) =
     (if root_exists w then Exists # fst (collect w (iter_candidate_files w exclude)) else [Exists])"
  by (simp add: main_def Let_def split_beta)

lemma main_exit_code_eq:
  "exit_code (main w exclude) =
     (if \<not> root_exists w then 2
      else if snd (collect w (iter_candidate_files w exclude)) \<noteq> [] then 1 else 0)"
  by (simp add: main_def Let_def split_beta)

lemma finding_paths: "fst ` set (snd (collect w es)) \<subseteq> set (yielded es)"
  by (auto simp: collect_findings)

lemma op_in_collect:
  "x \<in> set (fst (collect w es)) \<longleftrightarrow>
     Op x \<in> set es \<or> (\<exists>p. x = ReadText p \<and> Yield p \<in> set es)"
proof (induction es)
  case Nil
  show ?case by simp
next
  case (Cons e es)
  then show ?case by (cases e) (auto simp: split_beta Let_def scan_file_def)
qed

lemma Op_in_iter:
  "Op x \<in> set (iter_candidate_files w extra) \<longleftrightarrow>
     x = Rglob \<or>
     (\<exists>p \<in> set (rglob w). x = IsFile p \<or>
        (x = Stat p \<and> is_file w p \<and> \<not> list_ex (\<lambda>part. part \<in> DEFAULT_IGNORES \<union> set extra) p))"
  by (auto simp: iter_candidate_files_def Let_def iter_step_def split: if_splits option.splits)

lemma passes_rglob_update [simp]: "passes (w\<lparr>rglob := ps\<rparr>) ign = passes w ign"
  by (simp add: passes_def fun_eq_iff)

lemma scan_file_rglob_update [simp]: "scan_file (w\<lparr>rglob := ps\<rparr>) = scan_file w"
  by (simp add: scan_file_def read_text_def fun_eq_iff)

lemma filter_removeAll_irrelevant: "\<not> P p \<Longrightarrow> filter P (removeAll p ps) = filter P ps"
  by (induction ps) auto

lemma not_passes_run:
  assumes "\<not> passes w (DEFAULT_IGNORES \<union> set exclude) p"
  shows "Yield p \<notin> set (iter_candidate_files w exclude)"
    and "p \<notin> fst ` set (reported (main w exclude))"
    and "ReadText p \<notin> set (fs_ops (main w exclude))"
    and "yielded (iter_candidate_files (w\<lparr>rglob := removeAll p (rglob w)\<rparr>) exclude) =
         yielded (iter_candidate_files w exclude)"
    and "reported (main (w\<lparr>rglob := removeAll p (rglob w)\<rparr>) exclude) = reported (main w exclude)"
    and "exit_code (main (w\<lparr>rglob := removeAll p (rglob w)\<rparr>) exclude) = exit_code (main w exclude)"
proof -
  show y: "Yield p \<notin> set (iter_candidate_files w exclude)"
    using assms by (simp add: Yield_in_iff yielded_iter_candidate_files)
  then have "p \<notin> set (yielded (iter_candidate_files w exclude))"
    by (simp add: Yield_in_iff)
  with finding_paths [of w "iter_candidate_files w exclude"]
  show "p \<notin> fst ` set (reported (main w exclude))"
    by (auto simp: main_reported)
  show "ReadText p \<notin> set (fs_ops (main w exclude))"
    using y by (simp add: main_fs_ops op_in_collect Op_in_iter)
  show e: "yielded (iter_candidate_files (w\<lparr>rglob := removeAll p (rglob w)\<rparr>) exclude) =
         yielded (iter_candidate_files w exclude)"
    using assms by (simp add: yielded_iter_candidate_files filter_removeAll_irrelevant)
  have c: "snd (collect (w\<lparr>rglob := removeAll p (rglob w)\<rparr>)
                 (iter_candidate_files (w\<lparr>rglob := removeAll p (rglob w)\<rparr>) exclude)) =
           snd (collect w (iter_candidate_files w exclude))"
    by (simp only: collect_findings e scan_file_rglob_update)
  show "reported (main (w\<lparr>rglob := removeAll p (rglob w)\<rparr>) exclude) = reported (main w exclude)"
    by (simp only: main_reported c) simp
  show "exit_code (main (w\<lparr>rglob := removeAll p (rglob w)\<rparr>) exclude) = exit_code (main w exclude)"
    by (simp only: main_exit_code_eq c) simp
qed

section \<open>Exit status\<close>



section \<open>Files the traversal skips\<close>



text \<open>
  C3: a file with a component of its path below the root equal to a member of the ignore
  set (the built-in names and every \<open>--exclude\<close> argument) is skipped: the generator never
  yields it, no finding names it, and it is neither measured nor read. Only equality of a
  whole component counts: a regular file within the size limit whose components are all
  outside the set is yielded.
\<close>

theorem ignored_component_skipped:
  "((\<exists>part \<in> set p. part \<in> DEFAULT_IGNORES \<union> set exclude) \<longrightarrow>
      Yield p \<notin> set (iter_candidate_files w exclude) \<and>
      p \<notin> fst ` set (reported (main w exclude)) \<and>
      Stat p \<notin> set (fs_ops (main w exclude)) \<and>
      ReadText p \<notin> set (fs_ops (main w exclude))) \<and>
   (p \<in> set (rglob w) \<and> is_file w p \<and> st_size w p = Some n \<and> n \<le> 2097152 \<longrightarrow>
      (Yield p \<in> set (iter_candidate_files w exclude) \<longleftrightarrow>
         \<not> (\<exists>part \<in> set p. part \<in> DEFAULT_IGNORES \<union> set exclude)))"
proof -
  have a: "Stat p \<notin> set (fs_ops (main w exclude))"
    if "\<exists>part \<in> set p. part \<in> DEFAULT_IGNORES \<union> set exclude"
    using that by (auto simp: main_fs_ops op_in_collect Op_in_iter list_ex_iff)
  have b: "\<not> passes w (DEFAULT_IGNORES \<union> set exclude) p"
    if "\<exists>part \<in> set p. part \<in> DEFAULT_IGNORES \<union> set exclude"
    using that by (auto simp: passes_def list_ex_iff)
  have c: "Yield p \<in> set (iter_candidate_files w exclude) \<longleftrightarrow>
         \<not> (\<exists>part \<in> set p. part \<in> DEFAULT_IGNORES \<union> set exclude)"
    if "p \<in> set (rglob w)" "is_file w p" "st_size w p = Some n" "n \<le> 2097152"
    using that by (auto simp: Yield_in_iff yielded_iter_candidate_files passes_def list_ex_iff)
  from a not_passes_run(1-3) [OF b] c show ?thesis by blast
qed

theorem ignored_component_skipped_witness:
  "(\<exists>part \<in> set [str ''build'', str ''k.txt'']. part \<in> DEFAULT_IGNORES \<union> set []) \<and>
   Yield [str ''build'', str ''k.txt''] \<notin> set (iter_candidate_files demo_world []) \<and>
   [str ''build'', str ''k.txt''] \<notin> fst ` set (reported (main demo_world [])) \<and>
   Stat [str ''build'', str ''k.txt''] \<notin> set (fs_ops (main demo_world [])) \<and>
   ReadText [str ''build'', str ''k.txt''] \<notin> set (fs_ops (main demo_world [])) \<and>
   [str ''a.txt''] \<in> set (rglob demo_world) \<and> is_file demo_world [str ''a.txt''] \<and>
   st_size demo_world [str ''a.txt''] = Some 27 \<and>
   Yield [str ''a.txt''] \<in> set (iter_candidate_files demo_world [])"
proof -
  have h: "\<exists>part \<in> set [str ''build'', str ''k.txt'']. part \<in> DEFAULT_IGNORES \<union> set []"
    by (simp add: DEFAULT_IGNORES_def)
  have a: "[str ''a.txt''] \<in> set (rglob demo_world)" "is_file demo_world [str ''a.txt'']"
    "st_size demo_world [str ''a.txt''] = Some 27"
    by (simp_all add: demo_world_def str_def)
  have n: "\<not> (\<exists>part \<in> set [str ''a.txt'']. part \<in> DEFAULT_IGNORES \<union> set [])"
    by (simp add: DEFAULT_IGNORES_def str_def)
  note skipped = ignored_component_skipped
    [of "[str ''build'', str ''k.txt'']" "[]" demo_world 27, THEN conjunct1, THEN mp, OF h]
  note kept = ignored_component_skipped
    [of "[str ''a.txt'']" "[]" demo_world 27, THEN conjunct2, THEN mp]
  from a n kept have "Yield [str ''a.txt''] \<in> set (iter_candidate_files demo_world [])"
    by simp
  with skipped h a show ?thesis by blast
qed

section \<open>Determinism\<close>

lemma iter_step_cong:
  assumes "is_file w' p = is_file w p" "st_size w' p = st_size w p"
  shows "iter_step w' ign p = iter_step w ign p"
  using assms by (simp add: iter_step_def)

lemma collect_cong:
  assumes "\<forall>p \<in> set (yielded es). scan_file w' p = scan_file w p"
  shows "collect w' es = collect w es"
  using assms
proof (induction es)
  case Nil
  show ?case by simp
next
  case (Cons e es)
  then show ?case by (cases e) simp_all
qed

lemma scan_file_cong: "read_bytes w' p = read_bytes w p \<Longrightarrow> scan_file w' p = scan_file w p"
  by (simp add: scan_file_def read_text_def)

lemma finding_line_cong: "resolved w' = resolved w \<Longrightarrow> finding_line w' = finding_line w"
  by (simp add: finding_line_def path_str_def fun_eq_iff)

text \<open>
  C9: the scan is deterministic. A run is \<open>main\<close> applied to the arguments and to what
  the file system answers; two runs with the same arguments whose file systems agree on
  the root, on the sequence of paths below it and, for each of these paths, on
  \<open>is_file\<close>, \<open>stat\<close> and the content, leave the same outcome: the same findings, the
  same printed output and the same exit status.
\<close>

theorem main_deterministic:
  assumes "resolved w' = resolved w" and "root_exists w' = root_exists w"
    and "rglob w' = rglob w"
    and "\<forall>p \<in> set (rglob w). is_file w' p = is_file w p \<and> st_size w' p = st_size w p \<and>
           read_bytes w' p = read_bytes w p"
  shows "main w' exclude = main w exclude"
proof -
  have m: "map (iter_step w' ign) (rglob w) = map (iter_step w ign) (rglob w)" for ign
    using assms(4) by (intro map_cong refl iter_step_cong) simp_all
  have i: "iter_candidate_files w' exclude = iter_candidate_files w exclude"
    by (simp only: iter_candidate_files_def Let_def assms(3) m)
  have "set (yielded (iter_candidate_files w exclude)) \<subseteq> set (rglob w)"
    by (simp add: yielded_iter_candidate_files)
  with assms(4) have "\<forall>p \<in> set (yielded (iter_candidate_files w exclude)). scan_file w' p = scan_file w p"
    by (auto intro: scan_file_cong)
  then have c: "collect w' (iter_candidate_files w exclude) = collect w (iter_candidate_files w exclude)"
    by (rule collect_cong)
  show ?thesis
    unfolding main_def i c assms(1,2) finding_line_cong [OF assms(1)] ..
qed

theorem main_deterministic_witness:
  "resolved (demo_world\<lparr>read_bytes := (\<lambda>p. if p = [str ''elsewhere''] then None else read_bytes demo_world p)\<rparr>)
     = resolved demo_world \<and>
   main (demo_world\<lparr>read_bytes := (\<lambda>p. if p = [str ''elsewhere''] then None else read_bytes demo_world p)\<rparr>) []
     = main demo_world []"
proof -
  let ?w = "demo_world\<lparr>read_bytes := (\<lambda>p. if p = [str ''elsewhere''] then None else read_bytes demo_world p)\<rparr>"
  have "\<forall>p \<in> set (rglob demo_world). is_file ?w p = is_file demo_world p \<and>
          st_size ?w p = st_size demo_world p \<and> read_bytes ?w p = read_bytes demo_world p"
    by (simp add: demo_world_def str_def)
  from main_deterministic [of ?w demo_world "[]", OF _ _ _ this] show ?thesis by simp
qed

section \<open>The ignore entry \<open>scripts/__pycache__\<close>\<close>

text \<open>
  C10: the built-in entry \<open>scripts/__pycache__\<close> holds a separator, so it equals no
  component of a path and never causes a file to be skipped: for a path whose components
  hold no separator the traversal is the same with the entry and without it. A regular
  file within the size limit below \<open>scripts/__pycache__\<close> is yielded and read unless one
  of its components is another member of the ignore set, such as \<open>scripts\<close> or
  \<open>__pycache__\<close> given by \<open>--exclude\<close>.
\<close>

theorem pycache_entry_never_matches:
  assumes "\<forall>part \<in> set p. 47 \<notin> set part"
  shows "(list_ex (\<lambda>part. part \<in> DEFAULT_IGNORES \<union> set exclude) p \<longleftrightarrow>
            list_ex (\<lambda>part. part \<in> (DEFAULT_IGNORES - {str ''scripts/__pycache__''}) \<union> set exclude) p) \<and>
         iter_step w (DEFAULT_IGNORES \<union> set exclude) p =
            iter_step w ((DEFAULT_IGNORES - {str ''scripts/__pycache__''}) \<union> set exclude) p \<and>
         (root_exists w \<and> p \<in> set (rglob w) \<and> is_file w p \<and> st_size w p = Some n \<and> n \<le> 2097152 \<and>
          \<not> list_ex (\<lambda>part. part \<in> (DEFAULT_IGNORES - {str ''scripts/__pycache__''}) \<union> set exclude) p \<longrightarrow>
            Yield p \<in> set (iter_candidate_files w exclude) \<and>
            ReadText p \<in> set (fs_ops (main w exclude)))"
proof -
  have sep: "47 \<in> set (str ''scripts/__pycache__'')"
    by (simp add: str_def)
  with assms have "str ''scripts/__pycache__'' \<notin> set p" by blast
  then have eq: "list_ex (\<lambda>part. part \<in> DEFAULT_IGNORES \<union> set exclude) p \<longleftrightarrow>
            list_ex (\<lambda>part. part \<in> (DEFAULT_IGNORES - {str ''scripts/__pycache__''}) \<union> set exclude) p"
    by (auto simp: list_ex_iff)
  then have step: "iter_step w (DEFAULT_IGNORES \<union> set exclude) p =
            iter_step w ((DEFAULT_IGNORES - {str ''scripts/__pycache__''}) \<union> set exclude) p"
    by (simp add: iter_step_def)
  have "Yield p \<in> set (iter_candidate_files w exclude) \<and> ReadText p \<in> set (fs_ops (main w exclude))"
    if "root_exists w" "p \<in> set (rglob w)" "is_file w p" "st_size w p = Some n" "n \<le> 2097152"
      "\<not> list_ex (\<lambda>part. part \<in> (DEFAULT_IGNORES - {str ''scripts/__pycache__''}) \<union> set exclude) p"
  proof -
    from that eq have "passes w (DEFAULT_IGNORES \<union> set exclude) p"
      by (simp add: passes_def)
    with that(2) have "Yield p \<in> set (iter_candidate_files w exclude)"
      by (simp add: Yield_in_iff yielded_iter_candidate_files)
    then show ?thesis using that(1) by (auto simp: main_fs_ops op_in_collect)
  qed
  with eq step show ?thesis by blast
qed

theorem pycache_entry_never_matches_witness:
  "47 \<notin> set (str ''scripts'') \<and> 47 \<notin> set (str ''__pycache__'') \<and> 47 \<notin> set (str ''c.txt'') \<and>
   root_exists demo_world \<and>
   [str ''scripts'', str ''__pycache__'', str ''c.txt''] \<in> set (rglob demo_world) \<and>
   is_file demo_world [str ''scripts'', str ''__pycache__'', str ''c.txt''] \<and>
   st_size demo_world [str ''scripts'', str ''__pycache__'', str ''c.txt''] = Some 87 \<and>
   Yield [str ''scripts'', str ''__pycache__'', str ''c.txt'']
     \<in> set (iter_candidate_files demo_world []) \<and>
   ReadText [str ''scripts'', str ''__pycache__'', str ''c.txt'']
     \<in> set (fs_ops (main demo_world []))"
proof -
  let ?p = "[str ''scripts'', str ''__pycache__'', str ''c.txt'']"
  have sep: "\<forall>part \<in> set ?p. 47 \<notin> set part"
    by (simp add: str_def)
  have w: "root_exists demo_world" "?p \<in> set (rglob demo_world)" "is_file demo_world ?p"
    "st_size demo_world ?p = Some 87"
    by (simp_all add: demo_world_def str_def)
  have n: "\<not> list_ex (\<lambda>part. part \<in> (DEFAULT_IGNORES - {str ''scripts/__pycache__''}) \<union> set []) ?p"
    by (simp add: DEFAULT_IGNORES_def str_def)
  note t = pycache_entry_never_matches
    [where p = ?p and w = demo_world and n = 87 and exclude = "[]", OF sep,
      THEN conjunct2, THEN conjunct2, THEN mp]
  from w n t have "Yield ?p \<in> set (iter_candidate_files demo_world []) \<and>
      ReadText ?p \<in> set (fs_ops (main demo_world []))"
    by simp
  with sep w show ?thesis by simp
qed

section \<open>The matcher and the language of a pattern\<close>

lemma le_length_takeWhile:
  "j \<le> length (takeWhile P t) \<longleftrightarrow> j \<le> length t \<and> list_all P (take j t)"
proof (induction t arbitrary: j)
  case Nil
  show ?case by simp
next
  case (Cons x t)
  show ?case
  proof (cases j)
    case 0
    then show ?thesis by simp
  next
    case (Suc k)
    with Cons show ?thesis by simp
  qed
qed

lemma le_greedy_count:
  "j \<le> greedy_count p t \<longleftrightarrow>
     j \<le> length t \<and> list_all (accepts p) (take j t) \<and>
     (case max_rep p of None \<Rightarrow> True | Some m \<Rightarrow> j \<le> m)"
  by (auto simp: greedy_count_def Let_def le_length_takeWhile split: option.splits)

lemma in_match_lens_Cons:
  "n \<in> set (match_lens (p # ps) t) \<longleftrightarrow>
     (\<exists>j. min_rep p \<le> j \<and> j \<le> greedy_count p t \<and> j \<le> n \<and>
          n - j \<in> set (match_lens ps (drop j t)))"
proof
  assume "n \<in> set (match_lens (p # ps) t)"
  then have "\<exists>j m. min_rep p \<le> j \<and> j < Suc (greedy_count p t) \<and>
      m \<in> set (match_lens ps (drop j t)) \<and> n = j + m"
    by (simp only: match_lens.simps set_concat set_map set_rev set_upt) (force simp: image_iff)
  then show "\<exists>j. min_rep p \<le> j \<and> j \<le> greedy_count p t \<and> j \<le> n \<and>
          n - j \<in> set (match_lens ps (drop j t))"
    by auto
next
  assume "\<exists>j. min_rep p \<le> j \<and> j \<le> greedy_count p t \<and> j \<le> n \<and>
          n - j \<in> set (match_lens ps (drop j t))"
  then obtain j where j: "min_rep p \<le> j" "j \<le> greedy_count p t" "j \<le> n"
    "n - j \<in> set (match_lens ps (drop j t))" by blast
  then have "j \<in> set (rev [min_rep p ..< Suc (greedy_count p t)])" by auto
  moreover from j have "n \<in> (\<lambda>m. j + m) ` set (match_lens ps (drop j t))"
    by (intro image_eqI [where x = "n - j"]) simp_all
  then have "n \<in> set (map (\<lambda>m. j + m) (match_lens ps (drop j t)))"
    by simp
  ultimately have "n \<in> (\<Union>j \<in> set (rev [min_rep p ..< Suc (greedy_count p t)]).
      set (map (\<lambda>m. j + m) (match_lens ps (drop j t))))"
    by (rule UN_I)
  then show "n \<in> set (match_lens (p # ps) t)"
    by (simp only: match_lens.simps set_concat set_map image_image)
qed

lemma match_lens_iff:
  "n \<in> set (match_lens r t) \<longleftrightarrow> n \<le> length t \<and> matches r (take n t)"
proof (induction r arbitrary: n t)
  case Nil
  show ?case by auto
next
  case (Cons p ps)
  show ?case
  proof
    assume "n \<in> set (match_lens (p # ps) t)"
    then obtain j where j: "min_rep p \<le> j" "j \<le> greedy_count p t" "j \<le> n"
      "n - j \<in> set (match_lens ps (drop j t))"
      unfolding in_match_lens_Cons by blast
    from j(4) Cons.IH have m: "n - j \<le> length t - j" "matches ps (take (n - j) (drop j t))"
      by simp_all
    from j(2) have g: "j \<le> length t" "list_all (accepts p) (take j t)"
      "case max_rep p of None \<Rightarrow> True | Some m \<Rightarrow> j \<le> m"
      by (simp_all add: le_greedy_count)
    from m(1) j(3) g(1) have n: "n \<le> length t" by simp
    moreover have "j \<le> length (take n t) \<and> min_rep p \<le> j \<and>
        (case max_rep p of None \<Rightarrow> True | Some m \<Rightarrow> j \<le> m) \<and>
        list_all (accepts p) (take j (take n t)) \<and> matches ps (drop j (take n t))"
      using j(1,3) g(2,3) m(2) n by (simp add: min_def drop_take)
    then have "matches (p # ps) (take n t)"
      unfolding matches.simps by blast
    ultimately show "n \<le> length t \<and> matches (p # ps) (take n t)" by simp
  next
    assume a: "n \<le> length t \<and> matches (p # ps) (take n t)"
    then have "matches (p # ps) (take n t)" by (rule conjunct2)
    then obtain j where j0: "j \<le> length (take n t)" and j': "min_rep p \<le> j"
      "case max_rep p of None \<Rightarrow> True | Some m \<Rightarrow> j \<le> m"
      "list_all (accepts p) (take j (take n t))" "matches ps (drop j (take n t))"
      unfolding matches.simps by blast
    from j0 a have "j \<le> n" by simp
    note j = this j'
    from j(1,4) have 1: "list_all (accepts p) (take j t)" by (simp add: min_def)
    from a have nl: "n \<le> length t" by (rule conjunct1)
    with j(1) have 2: "j \<le> greedy_count p t"
      by (simp add: le_greedy_count 1 j(3))
    from j(5) have "matches ps (take (n - j) (drop j t))"
      by (simp add: drop_take)
    moreover from a have "n \<le> length t" by (rule conjunct1)
    ultimately have "n - j \<in> set (match_lens ps (drop j t))"
      using j(1) by (simp add: Cons.IH)
    with j(1,2) 2 show "n \<in> set (match_lens (p # ps) t)"
      unfolding in_match_lens_Cons by blast
  qed
qed

lemma fullmatch_iff: "fullmatch r t \<longleftrightarrow> matches r t"
  unfolding fullmatch_def match_lens_iff by simp

lemma matches_Cons_append:
  "matches (p # ps) s \<longleftrightarrow>
     (\<exists>u v. s = u @ v \<and> min_rep p \<le> length u \<and>
        (case max_rep p of None \<Rightarrow> True | Some m \<Rightarrow> length u \<le> m) \<and>
        list_all (accepts p) u \<and> matches ps v)"
proof
  assume "matches (p # ps) s"
  then obtain j where j: "j \<le> length s" "min_rep p \<le> j"
    "case max_rep p of None \<Rightarrow> True | Some m \<Rightarrow> j \<le> m"
    "list_all (accepts p) (take j s)" "matches ps (drop j s)"
    unfolding matches.simps by blast
  from j(1) have "length (take j s) = j" by simp
  with j have "s = take j s @ drop j s \<and> min_rep p \<le> length (take j s) \<and>
        (case max_rep p of None \<Rightarrow> True | Some m \<Rightarrow> length (take j s) \<le> m) \<and>
        list_all (accepts p) (take j s) \<and> matches ps (drop j s)"
    by (auto simp: min_absorb2 split: option.splits)
  then show "\<exists>u v. s = u @ v \<and> min_rep p \<le> length u \<and>
        (case max_rep p of None \<Rightarrow> True | Some m \<Rightarrow> length u \<le> m) \<and>
        list_all (accepts p) u \<and> matches ps v"
    by blast
next
  assume "\<exists>u v. s = u @ v \<and> min_rep p \<le> length u \<and>
        (case max_rep p of None \<Rightarrow> True | Some m \<Rightarrow> length u \<le> m) \<and>
        list_all (accepts p) u \<and> matches ps v"
  then obtain u v where uv: "s = u @ v" "min_rep p \<le> length u"
    "case max_rep p of None \<Rightarrow> True | Some m \<Rightarrow> length u \<le> m"
    "list_all (accepts p) u" "matches ps v"
    by blast
  then have "length u \<le> length s \<and> min_rep p \<le> length u \<and>
      (case max_rep p of None \<Rightarrow> True | Some m \<Rightarrow> length u \<le> m) \<and>
      list_all (accepts p) (take (length u) s) \<and> matches ps (drop (length u) s)"
    by simp
  then show "matches (p # ps) s"
    unfolding matches.simps by blast
qed

lemma matches_single_char:
  "matches (Piece f 1 (Some 1) # ps) s \<longleftrightarrow> (\<exists>c v. s = c # v \<and> f c \<and> matches ps v)"
proof
  assume "matches (Piece f 1 (Some 1) # ps) s"
  then obtain u v where uv: "s = u @ v" "1 \<le> length u" "length u \<le> 1" "list_all f u"
    "matches ps v"
    unfolding matches_Cons_append by auto
  from uv(2,3) obtain c where "u = [c]"
    by (cases u) auto
  with uv show "\<exists>c v. s = c # v \<and> f c \<and> matches ps v" by simp
next
  assume "\<exists>c v. s = c # v \<and> f c \<and> matches ps v"
  then obtain c v where cv: "s = c # v" "f c" "matches ps v" by blast
  then have "s = [c] @ v \<and> min_rep (Piece f 1 (Some 1)) \<le> length [c] \<and>
      (case max_rep (Piece f 1 (Some 1)) of None \<Rightarrow> True | Some m \<Rightarrow> length [c] \<le> m) \<and>
      list_all (accepts (Piece f 1 (Some 1))) [c] \<and> matches ps v"
    by simp
  then show "matches (Piece f 1 (Some 1) # ps) s"
    unfolding matches_Cons_append by blast
qed

lemma lower_letter:
  "97 \<le> l \<Longrightarrow> l \<le> 122 \<Longrightarrow> (c = l \<or> c + 32 = l) \<longleftrightarrow> ascii_lower c = l"
  by (auto simp: ascii_lower_def)

lemma matches_literal_ignorecase:
  assumes "\<forall>l \<in> set ls. 97 \<le> (of_char l :: nat) \<and> (of_char l :: nat) \<le> 122"
  shows "matches (literal_ignorecase ls @ rest) s \<longleftrightarrow>
           (\<exists>b v. s = b @ v \<and> map ascii_lower b = str ls \<and> matches rest v)"
  using assms
proof (induction ls arbitrary: s)
  case Nil
  show ?case by (simp add: literal_ignorecase_def str_def)
next
  case (Cons l ls)
  then have l: "97 \<le> (of_char l :: nat)" "(of_char l :: nat) \<le> 122"
    and ls: "\<forall>l \<in> set ls. 97 \<le> (of_char l :: nat) \<and> (of_char l :: nat) \<le> 122"
    by simp_all
  have ih: "matches (literal_ignorecase ls @ rest) v \<longleftrightarrow>
           (\<exists>b w. v = b @ w \<and> map ascii_lower b = str ls \<and> matches rest w)" for v
    using Cons.IH [OF ls] .
  have "literal_ignorecase (l # ls) @ rest =
      Piece (\<lambda>x. x = of_char l \<or> x + 32 = of_char l) 1 (Some 1) # (literal_ignorecase ls @ rest)"
    by (simp add: literal_ignorecase_def lit_ignorecase_def)
  then have "matches (literal_ignorecase (l # ls) @ rest) s \<longleftrightarrow>
      (\<exists>c v. s = c # v \<and> (c = of_char l \<or> c + 32 = of_char l) \<and>
         matches (literal_ignorecase ls @ rest) v)"
    by (simp only: matches_single_char)
  also have "\<dots> \<longleftrightarrow>
      (\<exists>c v. s = c # v \<and> ascii_lower c = of_char l \<and> matches (literal_ignorecase ls @ rest) v)"
    by (simp only: lower_letter [OF l])
  also have "\<dots> \<longleftrightarrow> (\<exists>c b w. s = (c # b) @ w \<and> map ascii_lower (c # b) = str (l # ls) \<and> matches rest w)"
    unfolding ih by (auto simp: str_def)
  also have "\<dots> \<longleftrightarrow> (\<exists>b v. s = b @ v \<and> map ascii_lower b = str (l # ls) \<and> matches rest v)"
  proof
    assume "\<exists>c b w. s = (c # b) @ w \<and> map ascii_lower (c # b) = str (l # ls) \<and> matches rest w"
    then show "\<exists>b v. s = b @ v \<and> map ascii_lower b = str (l # ls) \<and> matches rest v"
      by blast
  next
    assume "\<exists>b v. s = b @ v \<and> map ascii_lower b = str (l # ls) \<and> matches rest v"
    then obtain b v where b: "s = b @ v" "map ascii_lower b = str (l # ls)" "matches rest v"
      by blast
    from b(2) obtain c b' where "b = c # b'" by (cases b) (auto simp: str_def)
    with b show "\<exists>c b w. s = (c # b) @ w \<and> map ascii_lower (c # b) = str (l # ls) \<and> matches rest w"
      by blast
  qed
  finally show ?case .
qed

lemma matches_class_last: "matches [Piece f lo None] s \<longleftrightarrow> lo \<le> length s \<and> list_all f s"
  unfolding matches_Cons_append by auto

lemma bearer_language:
  "fullmatch generic_bearer_token s \<longleftrightarrow> bearer_shape unicode_space token_char_ignorecase s"
proof -
  have letters: "\<forall>l \<in> set ''bearer''. 97 \<le> (of_char l :: nat) \<and> (of_char l :: nat) \<le> 122"
    by simp
  have tail: "matches [Piece unicode_space 1 None, Piece token_char_ignorecase 20 None] v \<longleftrightarrow>
      (\<exists>ws tok. v = ws @ tok \<and> ws \<noteq> [] \<and> list_all unicode_space ws \<and>
         20 \<le> length tok \<and> list_all token_char_ignorecase tok)" for v
  proof -
    have "1 \<le> length ws \<longleftrightarrow> ws \<noteq> []" for ws :: pystr
      by (cases ws) simp_all
    then show ?thesis
      unfolding matches_Cons_append [of "Piece unicode_space 1 None"] matches_class_last
      by simp
  qed
  show ?thesis
    unfolding fullmatch_iff generic_bearer_token_def bearer_shape_def
      matches_literal_ignorecase [OF letters] tail
    by blast
qed

section \<open>The bearer pattern\<close>

lemma bearer_shape_tail:
  assumes "bearer_shape space token s"
  shows "\<exists>ws tok. drop 6 s = ws @ tok \<and> ws \<noteq> [] \<and> list_all space ws \<and>
           20 \<le> length tok \<and> list_all token tok"
proof -
  from assms obtain b ws tok where s: "s = b @ ws @ tok" and b: "map ascii_lower b = str ''bearer''"
    and rest: "ws \<noteq> []" "list_all space ws" "20 \<le> length tok" "list_all token tok"
    unfolding bearer_shape_def by blast
  from b have "length (map ascii_lower b) = length (str ''bearer'')" by simp
  then have "length b = 6" by (simp add: str_def)
  with s have "drop 6 s = ws @ tok" by simp
  with rest show ?thesis by blast
qed

lemma tab_example_fullmatch:
  "fullmatch generic_bearer_token (str ''bearer'' @ [9] @ str ''AAAAAAAAAAAAAAAAAAAA'')"
  by code_simp

lemma tab_example_shape:
  "\<not> bearer_shape (\<lambda>c. c = 32) spec_token_char (str ''bearer'' @ [9] @ str ''AAAAAAAAAAAAAAAAAAAA'')"
proof
  assume "bearer_shape (\<lambda>c. c = 32) spec_token_char (str ''bearer'' @ [9] @ str ''AAAAAAAAAAAAAAAAAAAA'')"
  from bearer_shape_tail [OF this] obtain ws tok
    where d: "drop 6 (str ''bearer'' @ [9] @ str ''AAAAAAAAAAAAAAAAAAAA'') = ws @ tok"
      and ws: "ws \<noteq> []" "list_all (\<lambda>c. c = 32) ws"
    by blast
  from ws obtain ws' where w: "ws = 32 # ws'" by (cases ws) auto
  from d have "9 # str ''AAAAAAAAAAAAAAAAAAAA'' = ws @ tok" by (simp add: str_def)
  with w show False by simp
qed

lemma bearer_shape_token_cong:
  assumes "\<forall>c \<in> set s. f c = g c"
  shows "bearer_shape space f s \<longleftrightarrow> bearer_shape space g s"
proof -
  have "list_all f tok \<longleftrightarrow> list_all g tok" if "s = b @ ws @ tok" for b ws tok
    using assms that by (simp add: list_all_iff)
  then show ?thesis unfolding bearer_shape_def by blast
qed

lemma token_char_ignorecase_plain:
  "c \<notin> {304, 305, 383, 8490} \<Longrightarrow> token_char_ignorecase c = spec_token_char c"
  by (simp add: token_char_ignorecase_def spec_token_char_def)

lemma spec_token_char_ignorecase: "spec_token_char c \<Longrightarrow> token_char_ignorecase c"
  unfolding token_char_ignorecase_def spec_token_char_def by blast

lemma bearer_shape_mono:
  assumes "bearer_shape space f s" and "\<And>c. f c \<Longrightarrow> g c"
  shows "bearer_shape space g s"
proof -
  have "list_all g tok" if "list_all f tok" for tok
    using that assms(2) by (simp add: list_all_iff)
  with assms(1) show ?thesis unfolding bearer_shape_def by blast
qed

lemma bearer_example_scan:
  "scan_text (str ''Bearer abcDEF1234567890ZZZZ0000'') =
     [(str ''Generic bearer token'', str ''Bearer abcDEF1234567890ZZZZ0000'')]"
  by code_simp

lemma tab_example_scan:
  "scan_text (str ''bearer'' @ [9] @ str ''AAAAAAAAAAAAAAAAAAAA'') =
     [(str ''Generic bearer token'', str ''bearer'' @ [9] @ str ''AAAAAAAAAAAAAAAAAAAA'')]"
  by code_simp

text \<open>
  C4, as amended: the pattern labelled \<open>Generic bearer token\<close> matches the strings that
  consist of \<open>bearer\<close> in any letter case, then one or more whitespace characters (the
  class \<open>\s\<close>: the space, and also the tab, the line ends and the other Unicode
  spaces), then 20 or more characters of \<open>[A-Za-z0-9-_]\<close>: the ASCII letters, the
  digits, \<open>-\<close> and \<open>_\<close>. Every string of this shape is matched; and a matched string
  in which none of the letters U+0130, U+0131, U+017F and U+212A occurs is of this shape.
  On strings that hold one of these four letters the statement is silent. A file
  containing \<open>Bearer abcDEF1234567890ZZZZ0000\<close> yields exactly one finding, with that
  label.
\<close>

theorem generic_bearer_token_language:
  "(bearer_shape unicode_space spec_token_char s \<longrightarrow> fullmatch generic_bearer_token s) \<and>
   (fullmatch generic_bearer_token s \<and> set s \<inter> {304, 305, 383, 8490} = {} \<longrightarrow>
      bearer_shape unicode_space spec_token_char s) \<and>
   scan_text (str ''Bearer abcDEF1234567890ZZZZ0000'') =
     [(str ''Generic bearer token'', str ''Bearer abcDEF1234567890ZZZZ0000'')]"
proof (intro conjI impI)
  assume "bearer_shape unicode_space spec_token_char s"
  then have "bearer_shape unicode_space token_char_ignorecase s"
    by (rule bearer_shape_mono) (rule spec_token_char_ignorecase)
  then show "fullmatch generic_bearer_token s" by (simp only: bearer_language)
next
  assume a: "fullmatch generic_bearer_token s \<and> set s \<inter> {304, 305, 383, 8490} = {}"
  then have "\<forall>c \<in> set s. token_char_ignorecase c = spec_token_char c"
    using token_char_ignorecase_plain by blast
  from bearer_shape_token_cong [OF this] a
  show "bearer_shape unicode_space spec_token_char s" by (simp only: bearer_language)
next
  show "scan_text (str ''Bearer abcDEF1234567890ZZZZ0000'') =
     [(str ''Generic bearer token'', str ''Bearer abcDEF1234567890ZZZZ0000'')]"
    by (rule bearer_example_scan)
qed

theorem generic_bearer_token_language_witness:
  "fullmatch generic_bearer_token (str ''Bearer abcDEF1234567890ZZZZ0000'') \<and>
   set (str ''Bearer abcDEF1234567890ZZZZ0000'') \<inter> {304, 305, 383, 8490} = {} \<and>
   bearer_shape unicode_space spec_token_char (str ''Bearer abcDEF1234567890ZZZZ0000'')"
proof -
  have m: "fullmatch generic_bearer_token (str ''Bearer abcDEF1234567890ZZZZ0000'')"
    by code_simp
  have p: "set (str ''Bearer abcDEF1234567890ZZZZ0000'') \<inter> {304, 305, 383, 8490} = {}"
    by (simp add: str_def)
  note t = generic_bearer_token_language [of "str ''Bearer abcDEF1234567890ZZZZ0000''"]
  from t [THEN conjunct2, THEN conjunct1, THEN mp, OF conjI [OF m p]]
  have sh: "bearer_shape unicode_space spec_token_char (str ''Bearer abcDEF1234567890ZZZZ0000'')" .
  from t [THEN conjunct1, THEN mp, OF sh] p sh show ?thesis by (intro conjI)
qed

text \<open>
  The claim as stated, with one or more space characters, fails: the pattern matches
  \<open>bearer\<close>, a tab and twenty \<open>A\<close>, which is not \<open>bearer\<close>, one or more spaces and
  20 or more characters of \<open>[A-Za-z0-9-_]\<close>; and a file with this content yields a
  finding.
\<close>

theorem generic_bearer_token_counterexample:
  "fullmatch generic_bearer_token (str ''bearer'' @ [9] @ str ''AAAAAAAAAAAAAAAAAAAA'') \<and>
   \<not> bearer_shape (\<lambda>c. c = 32) spec_token_char
       (str ''bearer'' @ [9] @ str ''AAAAAAAAAAAAAAAAAAAA'') \<and>
   scan_text (str ''bearer'' @ [9] @ str ''AAAAAAAAAAAAAAAAAAAA'') =
     [(str ''Generic bearer token'', str ''bearer'' @ [9] @ str ''AAAAAAAAAAAAAAAAAAAA'')]"
  using tab_example_fullmatch tab_example_shape tab_example_scan
  by (intro conjI)

section \<open>The findings of one file\<close>

lemma search_match:
  "search r t pos ma = Some (s, e) \<Longrightarrow> s \<le> e \<and> e - s \<in> set (match_lens r (drop s t))"
proof (induction r t pos ma rule: search.induct)
  case (1 r t pos ma)
  show ?case
  proof (cases "length t < pos")
    case True
    with "1.prems" show ?thesis by simp
  next
    case False
    show ?thesis
    proof (cases "match_at r (drop pos t) ma")
      case None
      with False "1.prems" have "search r t (Suc pos) False = Some (s, e)" by simp
      from "1.IH" [OF False None this] show ?thesis .
    next
      case (Some n)
      with False "1.prems" have se: "s = pos" "e = pos + n" by simp_all
      from Some have "n \<in> set (match_lens r (drop pos t))"
        unfolding match_at_def by (blast dest: find_Some_set)
      with se show ?thesis by simp
    qed
  qed
qed

lemma search_fullmatch:
  assumes "search r t pos ma = Some (s, e)"
  shows "fullmatch r (group0 t (s, e))"
proof -
  from search_match [OF assms] have "matches r (take (e - s) (drop s t))"
    by (simp add: match_lens_iff)
  then show ?thesis by (simp add: fullmatch_iff group0_def)
qed

lemma finditer_from_spans:
  assumes "\<not> matches r []"
  shows "ordered_disjoint pos (finditer_from r t pos ma) \<and>
         list_all (\<lambda>m. snd m \<le> length t \<and> fullmatch r (group0 t m)) (finditer_from r t pos ma)"
  using assms
proof (induction r t pos ma rule: finditer_from.induct)
  case (1 r t pos ma)
  note nonempty = "1.prems"
  show ?case
  proof (cases "search r t pos ma")
    case None
    then show ?thesis by simp
  next
    case (Some m)
    obtain s e where m: "m = (s, e)" by (cases m)
    with Some have found: "search r t pos ma = Some (s, e)" by simp
    from search_span [OF found] have span: "pos \<le> s" "s \<le> e" "e \<le> length t" by simp_all
    from search_fullmatch [OF found] have full: "fullmatch r (group0 t (s, e))" .
    have "s \<noteq> e"
    proof
      assume "s = e"
      with full have "fullmatch r []" by (simp add: group0_def)
      with nonempty show False by (simp add: fullmatch_iff)
    qed
    with span have lt: "s < e" by simp
    from "1.IH" [OF found refl nonempty] have ih:
      "ordered_disjoint e (finditer_from r t e (s = e))"
      "list_all (\<lambda>m. snd m \<le> length t \<and> fullmatch r (group0 t m)) (finditer_from r t e (s = e))"
      by simp_all
    have "finditer_from r t pos ma = (s, e) # finditer_from r t e (s = e)"
      using found by simp
    with span lt full ih show ?thesis by simp
  qed
qed

lemma patterns_nonempty:
  "\<not> matches openai_secret []" "\<not> matches openai_project_token []"
  "\<not> matches pinecone_server_key []" "\<not> matches generic_bearer_token []"
  by (simp_all add: openai_secret_def openai_project_token_def pinecone_server_key_def
      generic_bearer_token_def literal_def literal_ignorecase_def lit_def lit_ignorecase_def)

subsection \<open>The first match from a position\<close>

lemma match_lens_positive:
  assumes "\<not> matches r []" and "n \<in> set (match_lens r u)"
  shows "0 < n"
proof (rule ccontr)
  assume "\<not> 0 < n"
  with assms(2) have "0 \<in> set (match_lens r u)" by simp
  then have "matches r (take 0 u)" by (simp only: match_lens_iff)
  with assms(1) show False by simp
qed

lemma find_always: "(\<And>x. x \<in> set xs \<Longrightarrow> P x) \<Longrightarrow>
    List.find P xs = (case xs of [] \<Rightarrow> None | x # _ \<Rightarrow> Some x)"
  by (cases xs) simp_all

lemma match_at_first:
  assumes "\<not> matches r []"
  shows "match_at r u ma = (case match_lens r u of [] \<Rightarrow> None | n # _ \<Rightarrow> Some n)"
  unfolding match_at_def
  by (rule find_always) (simp add: match_lens_positive [OF assms])

lemma search_leftmost:
  assumes "\<not> matches r []"
  shows "(search r t pos ma = None \<longrightarrow>
            (\<forall>i. pos \<le> i \<and> i \<le> length t \<longrightarrow> match_lens r (drop i t) = [])) \<and>
         (\<forall>s e. search r t pos ma = Some (s, e) \<longrightarrow>
            (\<forall>i. pos \<le> i \<and> i < s \<longrightarrow> match_lens r (drop i t) = []) \<and>
            match_lens r (drop s t) \<noteq> [] \<and> e = s + hd (match_lens r (drop s t)))"
  using assms
proof (induction r t pos ma rule: search.induct)
  case (1 r t pos ma)
  note nonempty = "1.prems"
  show ?case
  proof (cases "length t < pos")
    case True
    then have "search r t pos ma = None" by (subst search.simps) simp
    moreover from True have "\<not> (pos \<le> i \<and> i \<le> length t)" for i by simp
    ultimately show ?thesis by (auto simp del: search.simps)
  next
    case False
    show ?thesis
    proof (cases "match_lens r (drop pos t)")
      case Nil
      then have none: "match_at r (drop pos t) ma = None"
        by (simp add: match_at_first [OF nonempty])
      from False none have eq: "search r t pos ma = search r t (Suc pos) False"
        by (subst search.simps) simp
      from "1.IH" [OF False none nonempty]
      have ih1: "search r t (Suc pos) False = None \<Longrightarrow> Suc pos \<le> i \<Longrightarrow> i \<le> length t \<Longrightarrow>
          match_lens r (drop i t) = []"
        and ih2: "search r t (Suc pos) False = Some (s, e) \<Longrightarrow>
          (\<forall>i. Suc pos \<le> i \<and> i < s \<longrightarrow> match_lens r (drop i t) = []) \<and>
          match_lens r (drop s t) \<noteq> [] \<and> e = s + hd (match_lens r (drop s t))" for i s e
        by blast+
      have step: "i = pos \<or> Suc pos \<le> i" if "pos \<le> i" for i
        using that by arith
      have a: "match_lens r (drop i t) = []"
        if "search r t pos ma = None" "pos \<le> i" "i \<le> length t" for i
      proof -
        from that(1) have n: "search r t (Suc pos) False = None" by (simp only: eq)
        from step [OF that(2)] show ?thesis
        proof
          assume "i = pos"
          with Nil show ?thesis by simp
        next
          assume "Suc pos \<le> i"
          from ih1 [OF n this that(3)] show ?thesis .
        qed
      qed
      have b: "(\<forall>i. pos \<le> i \<and> i < s \<longrightarrow> match_lens r (drop i t) = []) \<and>
          match_lens r (drop s t) \<noteq> [] \<and> e = s + hd (match_lens r (drop s t))"
        if "search r t pos ma = Some (s, e)" for s e
      proof -
        from that have n: "search r t (Suc pos) False = Some (s, e)" by (simp only: eq)
        note r = ih2 [OF n]
        have "match_lens r (drop i t) = []" if "pos \<le> i" "i < s" for i
          using step [OF that(1)]
        proof
          assume "i = pos"
          with Nil show ?thesis by simp
        next
          assume "Suc pos \<le> i"
          with r that(2) show ?thesis by blast
        qed
        with r show ?thesis by blast
      qed
      from a b show ?thesis by blast
    next
      case (Cons n ns)
      then have some: "match_at r (drop pos t) ma = Some n"
        by (simp add: match_at_first [OF nonempty])
      from False some have found: "search r t pos ma = Some (pos, pos + n)"
        by (subst search.simps) simp
      have "\<not> (pos \<le> i \<and> i < pos)" for i by simp
      moreover from Cons have "match_lens r (drop pos t) \<noteq> []"
        and "pos + n = pos + hd (match_lens r (drop pos t))" by simp_all
      ultimately show ?thesis
        unfolding found by (auto simp del: search.simps)
    qed
  qed
qed

subsection \<open>The longest match at a position\<close>

lemma match_lens_single: "match_lens [p] t = rev [min_rep p ..< Suc (greedy_count p t)]"
proof -
  have "concat (map (\<lambda>j. [j]) xs) = xs" for xs :: "nat list"
    by (induction xs) simp_all
  then show ?thesis by simp
qed

lemma greedy_count_rejected: "\<not> accepts q x \<Longrightarrow> greedy_count q (x # u) = 0"
  by (simp add: greedy_count_def split: option.splits)

lemma match_lens_rejected:
  assumes "\<not> accepts q x" and "1 \<le> min_rep q"
  shows "match_lens (q # rest) (x # u) = []"
proof -
  from assms have "[min_rep q ..< Suc (greedy_count q (x # u))] = []"
    by (simp add: greedy_count_rejected)
  then show ?thesis by (simp only: match_lens.simps rev.simps list.map concat.simps)
qed

lemma greedy_count_accepted:
  assumes "j < greedy_count p t"
  shows "j < length t \<and> accepts p (t ! j)"
proof -
  from assms have j: "j < length (takeWhile (accepts p) t)"
    by (auto simp: greedy_count_def Let_def split: option.splits)
  then have "accepts p (takeWhile (accepts p) t ! j)"
    by (metis nth_mem set_takeWhileD)
  moreover from j have "takeWhile (accepts p) t ! j = t ! j"
    by (rule takeWhile_nth)
  moreover from j have "j < length t"
    using length_takeWhile_le [of "accepts p" t] by simp
  ultimately show ?thesis by simp
qed

lemma match_lens_separated:
  assumes "\<forall>c. \<not> (accepts p c \<and> accepts q c)" and "1 \<le> min_rep q"
  shows "match_lens (p # q # rest) t =
           (if min_rep p \<le> greedy_count p t
            then map (\<lambda>n. greedy_count p t + n)
                     (match_lens (q # rest) (drop (greedy_count p t) t))
            else [])"
proof -
  let ?g = "greedy_count p t"
  define f where "f = (\<lambda>j. map (\<lambda>n. j + n) (match_lens (q # rest) (drop j t)))"
  have early: "f j = []" if "j < ?g" for j
  proof -
    from greedy_count_accepted [OF that] have j: "j < length t" and a: "accepts p (t ! j)"
      by simp_all
    from a assms(1) have "\<not> accepts q (t ! j)" by blast
    then have "match_lens (q # rest) (t ! j # drop (Suc j) t) = []"
      using assms(2) by (rule match_lens_rejected)
    with j show ?thesis by (simp only: f_def Cons_nth_drop_Suc list.map)
  qed
  have none: "concat (map f js) = []" if "\<forall>j \<in> set js. j < ?g" for js
    using that by (induction js) (simp_all add: early)
  have unfold: "match_lens (p # q # rest) t = concat (map f (rev [min_rep p ..< Suc ?g]))"
    by (simp only: match_lens.simps f_def)
  show ?thesis
  proof (cases "min_rep p \<le> ?g")
    case True
    then have "rev [min_rep p ..< Suc ?g] = ?g # rev [min_rep p ..< ?g]" by simp
    moreover have "concat (map f (rev [min_rep p ..< ?g])) = []"
      by (rule none) simp
    ultimately have "concat (map f (rev [min_rep p ..< Suc ?g])) = f ?g"
      by (simp only: list.map concat.simps append_Nil2)
    with True show ?thesis by (simp only: unfold if_True) (simp only: f_def)
  next
    case False
    then have "rev [min_rep p ..< Suc ?g] = []" by simp
    with False show ?thesis by (simp only: unfold list.map concat.simps if_False)
  qed
qed

lemma match_lens_descending: "separated r \<Longrightarrow> sorted (rev (match_lens r t))"
proof (induction r arbitrary: t rule: separated.induct)
  case 1
  show ?case by simp
next
  case (2 p)
  show ?case by (simp only: match_lens_single rev_rev_ident sorted_upt)
next
  case (3 p q r)
  then have d: "\<forall>c. \<not> (accepts p c \<and> accepts q c)" and m: "1 \<le> min_rep q"
    and s: "separated (q # r)"
    by simp_all
  from "3.IH" [OF s] have "sorted (rev (match_lens (q # r) (drop (greedy_count p t) t)))" .
  then have "sorted (rev (map (\<lambda>n. greedy_count p t + n)
      (match_lens (q # r) (drop (greedy_count p t) t))))"
    by (simp add: rev_map sorted_map)
  then show ?case
    by (simp add: match_lens_separated [OF d m] del: match_lens.simps)
qed

lemma descending_hd: "sorted (rev xs) \<Longrightarrow> x \<in> set xs \<Longrightarrow> x \<le> hd xs"
  by (cases xs) (auto simp: sorted_append)

lemma separated_patterns:
  "separated openai_secret" "separated openai_project_token"
  "separated pinecone_server_key" "separated generic_bearer_token"
  by (auto simp: openai_secret_def openai_project_token_def pinecone_server_key_def
      generic_bearer_token_def literal_def literal_ignorecase_def lit_def lit_ignorecase_def
      str_def ascii_alnum_def unicode_space_def token_char_ignorecase_def)

subsection \<open>Every match starts inside a reported one\<close>

lemma finditer_from_covers:
  assumes "\<not> matches r []" and "separated r"
    and "pos \<le> s" and "s \<le> e" and "e \<le> length t" and "matches r (group0 t (s, e))"
  shows "\<exists>m \<in> set (finditer_from r t pos ma). fst m \<le> s \<and> s < snd m \<and> (fst m = s \<longrightarrow> e \<le> snd m)"
  using assms
proof (induction r t pos ma rule: finditer_from.induct)
  case (1 r t pos ma)
  note nonempty = "1.prems"(1) and sep = "1.prems"(2) and pos = "1.prems"(3)
    and se = "1.prems"(4) and et = "1.prems"(5) and lang = "1.prems"(6)
  from se et lang have here: "e - s \<in> set (match_lens r (drop s t))"
    by (simp add: match_lens_iff group0_def)
  from se et have st: "s \<le> length t" by simp
  note leftmost = search_leftmost [OF nonempty, of t pos ma]
  show ?case
  proof (cases "search r t pos ma")
    case None
    from leftmost [THEN conjunct1, THEN mp, OF None, THEN spec, THEN mp, OF conjI [OF pos st]]
    have "match_lens r (drop s t) = []" .
    with here have False by simp
    then show ?thesis ..
  next
    case (Some m0)
    obtain s0 e0 where m0: "m0 = (s0, e0)" by (cases m0)
    with Some have found: "search r t pos ma = Some (s0, e0)" by simp
    note first = leftmost [THEN conjunct2, THEN spec, THEN spec, THEN mp, OF found]
    from first have before: "pos \<le> i \<Longrightarrow> i < s0 \<Longrightarrow> match_lens r (drop i t) = []" for i
      by (elim conjE allE [where x = i]) simp
    from first have e0: "e0 = s0 + hd (match_lens r (drop s0 t))"
      by (elim conjE)
    have unfold: "finditer_from r t pos ma = (s0, e0) # finditer_from r t e0 (s0 = e0)"
      using found by (subst finditer_from.simps) simp
    have s0: "s0 \<le> s"
    proof (rule ccontr)
      assume "\<not> s0 \<le> s"
      with pos before have "match_lens r (drop s t) = []" by simp
      with here show False by simp
    qed
    show ?thesis
    proof (cases "s < e0")
      case True
      have "e \<le> e0" if "s0 = s"
      proof -
        from here that have "e - s \<le> hd (match_lens r (drop s0 t))"
          using descending_hd [OF match_lens_descending [OF sep]] by simp
        with e0 that se show ?thesis by simp
      qed
      with s0 True have "fst (s0, e0) \<le> s \<and> s < snd (s0, e0) \<and> (fst (s0, e0) = s \<longrightarrow> e \<le> snd (s0, e0))"
        by simp
      moreover have "(s0, e0) \<in> set ((s0, e0) # finditer_from r t e0 (s0 = e0))"
        by (simp only: list.set insert_iff simp_thms)
      ultimately show ?thesis unfolding unfold by (rule bexI)
    next
      case False
      then have "e0 \<le> s" by simp
      from "1.IH" [OF found refl nonempty sep this se et lang]
      obtain m where m: "m \<in> set (finditer_from r t e0 (s0 = e0))"
        and c: "fst m \<le> s \<and> s < snd m \<and> (fst m = s \<longrightarrow> e \<le> snd m)"
        by (elim bexE)
      from m have "m \<in> set ((s0, e0) # finditer_from r t e0 (s0 = e0))"
        by (simp only: list.set insert_iff simp_thms)
      with c show ?thesis unfolding unfold by (rule bexI)
    qed
  qed
qed

subsection \<open>A file with three matches\<close>

lemma mixed_scan: "snd (scan_file demo_world [str ''scripts'', str ''__pycache__'', str ''c.txt'']) =
   [(str ''OpenAI secret'', str ''sk-AAAAAAAAAAAAAAAAAAAAAAAA''),
    (str ''OpenAI secret'', str ''sk-BBBBBBBBBBBBBBBBBBBBBBBB''),
    (str ''Generic bearer token'', str ''Bearer abcDEF1234567890ZZZZ0000'')]"
  by code_simp

lemma mixed_read: "read_text demo_world [str ''scripts'', str ''__pycache__'', str ''c.txt''] =
   Some (str ''Bearer abcDEF1234567890ZZZZ0000 sk-AAAAAAAAAAAAAAAAAAAAAAAA sk-BBBBBBBBBBBBBBBBBBBBBBBB'')"
  by code_simp

lemma mixed_spans:
  "finditer openai_secret
     (str ''Bearer abcDEF1234567890ZZZZ0000 sk-AAAAAAAAAAAAAAAAAAAAAAAA sk-BBBBBBBBBBBBBBBBBBBBBBBB'')
     = [(32, 59), (60, 87)]"
  "finditer openai_project_token
     (str ''Bearer abcDEF1234567890ZZZZ0000 sk-AAAAAAAAAAAAAAAAAAAAAAAA sk-BBBBBBBBBBBBBBBBBBBBBBBB'')
     = []"
  "finditer pinecone_server_key
     (str ''Bearer abcDEF1234567890ZZZZ0000 sk-AAAAAAAAAAAAAAAAAAAAAAAA sk-BBBBBBBBBBBBBBBBBBBBBBBB'')
     = []"
  "finditer generic_bearer_token
     (str ''Bearer abcDEF1234567890ZZZZ0000 sk-AAAAAAAAAAAAAAAAAAAAAAAA sk-BBBBBBBBBBBBBBBBBBBBBBBB'')
     = [(0, 31)]"
  by code_simp+

text \<open>
  C5: for a readable file \<open>scan_file\<close> returns one finding for each match that
  \<open>finditer\<close> yields for each pattern, ordered first by the position of the pattern in
  the list (OpenAI secret, OpenAI project token, Pinecone server key, Generic bearer
  token) and then by the position of the match in the text: the findings are grouped by
  pattern, not interleaved by position. For each pattern the matches that \<open>finditer\<close>
  yields are these: they come in the order of their positions, none of them empty and
  none overlapping the one before it; the snippet of each is a string of the pattern's
  language; and no match is left out: every stretch of the text that is a string of the
  pattern's language starts inside a yielded match, and where it starts at the start of
  a yielded match it ends no later. So the first yielded match is the leftmost and
  longest match of the text, and each further one is the leftmost and longest match that
  starts at or after the end of the one before.
\<close>

theorem scan_file_grouped:
  assumes "read_text w p = Some content"
  shows "snd (scan_file w p) =
           map (\<lambda>m. (str ''OpenAI secret'', group0 content m)) (finditer openai_secret content) @
           map (\<lambda>m. (str ''OpenAI project token'', group0 content m))
               (finditer openai_project_token content) @
           map (\<lambda>m. (str ''Pinecone server key'', group0 content m))
               (finditer pinecone_server_key content) @
           map (\<lambda>m. (str ''Generic bearer token'', group0 content m))
               (finditer generic_bearer_token content) \<and>
         list_all (\<lambda>r. ordered_disjoint 0 (finditer r content) \<and>
                       list_all (\<lambda>m. snd m \<le> length content \<and> fullmatch r (group0 content m))
                                (finditer r content) \<and>
                       (\<forall>s e. s \<le> e \<and> e \<le> length content \<and> matches r (group0 content (s, e)) \<longrightarrow>
                          (\<exists>m \<in> set (finditer r content).
                             fst m \<le> s \<and> s < snd m \<and> (fst m = s \<longrightarrow> e \<le> snd m))))
                  (map snd PATTERNS)"
proof -
  have "snd (scan_file w p) = scan_text content"
    using assms by (simp add: scan_file_def)
  moreover have "ordered_disjoint 0 (finditer r content) \<and>
      list_all (\<lambda>m. snd m \<le> length content \<and> fullmatch r (group0 content m)) (finditer r content)"
    if "\<not> matches r []" for r
    unfolding finditer_def using that by (rule finditer_from_spans)
  moreover have "\<forall>s e. s \<le> e \<and> e \<le> length content \<and> matches r (group0 content (s, e)) \<longrightarrow>
      (\<exists>m \<in> set (finditer r content). fst m \<le> s \<and> s < snd m \<and> (fst m = s \<longrightarrow> e \<le> snd m))"
    if "\<not> matches r []" "separated r" for r
  proof (intro allI impI, elim conjE)
    fix s e
    assume "s \<le> e" "e \<le> length content" "matches r (group0 content (s, e))"
    with that show "\<exists>m \<in> set (finditer r content).
        fst m \<le> s \<and> s < snd m \<and> (fst m = s \<longrightarrow> e \<le> snd m)"
      unfolding finditer_def by (intro finditer_from_covers) simp_all
  qed
  ultimately show ?thesis
    by (simp add: scan_text_def PATTERNS_def patterns_nonempty separated_patterns)
qed

theorem scan_file_grouped_witness:
  "read_text demo_world [str ''scripts'', str ''__pycache__'', str ''c.txt''] =
     Some (str ''Bearer abcDEF1234567890ZZZZ0000 sk-AAAAAAAAAAAAAAAAAAAAAAAA sk-BBBBBBBBBBBBBBBBBBBBBBBB'') \<and>
   finditer openai_secret
     (str ''Bearer abcDEF1234567890ZZZZ0000 sk-AAAAAAAAAAAAAAAAAAAAAAAA sk-BBBBBBBBBBBBBBBBBBBBBBBB'')
     = [(32, 59), (60, 87)] \<and>
   finditer openai_project_token
     (str ''Bearer abcDEF1234567890ZZZZ0000 sk-AAAAAAAAAAAAAAAAAAAAAAAA sk-BBBBBBBBBBBBBBBBBBBBBBBB'')
     = [] \<and>
   finditer pinecone_server_key
     (str ''Bearer abcDEF1234567890ZZZZ0000 sk-AAAAAAAAAAAAAAAAAAAAAAAA sk-BBBBBBBBBBBBBBBBBBBBBBBB'')
     = [] \<and>
   finditer generic_bearer_token
     (str ''Bearer abcDEF1234567890ZZZZ0000 sk-AAAAAAAAAAAAAAAAAAAAAAAA sk-BBBBBBBBBBBBBBBBBBBBBBBB'')
     = [(0, 31)] \<and>
   snd (scan_file demo_world [str ''scripts'', str ''__pycache__'', str ''c.txt'']) =
     [(str ''OpenAI secret'', str ''sk-AAAAAAAAAAAAAAAAAAAAAAAA''),
      (str ''OpenAI secret'', str ''sk-BBBBBBBBBBBBBBBBBBBBBBBB''),
      (str ''Generic bearer token'', str ''Bearer abcDEF1234567890ZZZZ0000'')]"
  using scan_file_grouped [OF mixed_read] mixed_read mixed_spans mixed_scan
  by (intro conjI)

section \<open>The report\<close>












section \<open>Files that cannot be read or decoded\<close>

lemma ascii_not_continuation: "b < 0x80 \<Longrightarrow> \<not> is_continuation b"
  unfolding is_continuation_def using leD by blast

lemma utf8_decode_ascii:
  "list_all (\<lambda>b. b < 0x80) bs \<Longrightarrow> utf8_decode_ignore bs = map unat bs"
  by (induction bs) simp_all

lemma utf8_decode_lone_byte:
  assumes "\<not> bad < 0x80" and "list_all (\<lambda>b. b < 0x80) ys"
  shows "utf8_decode_ignore (bad # ys) = map unat ys"
proof (cases ys)
  case Nil
  with assms show ?thesis by simp
next
  case (Cons b1 bs1)
  with assms(2) have "b1 < 0x80" by simp
  then have "\<not> is_continuation b1" by (rule ascii_not_continuation)
  moreover from assms(2) have "utf8_decode_ignore ys = map unat ys"
    by (rule utf8_decode_ascii)
  ultimately show ?thesis using assms(1) Cons by simp
qed

lemma utf8_decode_drops_lone_byte:
  assumes "list_all (\<lambda>b. b < 0x80) xs" and "\<not> bad < 0x80" and "list_all (\<lambda>b. b < 0x80) ys"
  shows "utf8_decode_ignore (xs @ [bad] @ ys) = map unat xs @ map unat ys"
  using assms(1)
proof (induction xs)
  case Nil
  show ?case using utf8_decode_lone_byte [OF assms(2,3)] by simp
next
  case (Cons x xs)
  then show ?case by simp
qed

lemma universal_newlines_id: "13 \<notin> set t \<Longrightarrow> universal_newlines t = t"
  by (induction t rule: universal_newlines.induct) simp_all

lemma scan_file_read:
  "scan_file w p =
     ([ReadText p],
      case read_bytes w p of None \<Rightarrow> []
      | Some bs \<Rightarrow> scan_text (universal_newlines (utf8_decode_ignore bs)))"
  by (simp add: scan_file_def read_text_def split: option.splits)

lemma corrupt_scan:
  "scan_file corrupt_world [str ''a.txt''] =
     ([ReadText [str ''a.txt'']], [(str ''OpenAI secret'', str ''sk-AAAAAAAAAAAAAAAAAAAAAAAA'')])"
  by code_simp

lemma secret_bytes_ascii: "list_all (\<lambda>b. b < 0x80) secret_bytes"
  by (simp add: secret_bytes_def)

lemma secret_bytes_text: "map unat secret_bytes = str ''sk-AAAAAAAAAAAAAAAAAAAAAAAA''"
  by (simp add: secret_bytes_def str_def)

text \<open>
  C6: when opening or reading the file raises an I/O error, \<open>scan_file\<close> returns the
  empty list of findings and nothing else happens. Any sequence of bytes is read as a
  text, which is then scanned: a file that does not decode never aborts the scan. What
  does not decode is dropped byte by byte: a byte outside ASCII that stands alone between
  ASCII bytes disappears and the bytes around it are kept.
\<close>

theorem scan_file_unreadable_or_undecodable:
  "(read_bytes w p = None \<longrightarrow> scan_file w p = ([ReadText p], [])) \<and>
   (read_bytes w p = Some bs \<longrightarrow>
      read_text w p = Some (universal_newlines (utf8_decode_ignore bs)) \<and>
      scan_file w p = ([ReadText p], scan_text (universal_newlines (utf8_decode_ignore bs)))) \<and>
   (list_all (\<lambda>b. b < 0x80) xs \<and> \<not> bad < 0x80 \<and> list_all (\<lambda>b. b < 0x80) ys \<longrightarrow>
      utf8_decode_ignore (xs @ [bad] @ ys) = map unat xs @ map unat ys)"
  using utf8_decode_drops_lone_byte [of xs bad ys]
  by (simp add: scan_file_read read_text_def)

theorem scan_file_unreadable_or_undecodable_witness:
  "read_bytes demo_world [str ''locked.txt''] = None \<and>
   scan_file demo_world [str ''locked.txt''] = ([ReadText [str ''locked.txt'']], []) \<and>
   read_bytes corrupt_world [str ''a.txt''] = Some ([0xFF] @ secret_bytes @ [0xC3]) \<and>
   scan_file corrupt_world [str ''a.txt''] =
     ([ReadText [str ''a.txt'']], [(str ''OpenAI secret'', str ''sk-AAAAAAAAAAAAAAAAAAAAAAAA'')]) \<and>
   \<not> (0xFF :: byte) < 0x80 \<and>
   utf8_decode_ignore ([] @ [0xFF] @ secret_bytes) = str ''sk-AAAAAAAAAAAAAAAAAAAAAAAA''"
proof -
  have locked: "read_bytes demo_world [str ''locked.txt''] = None"
    by (simp add: demo_world_def)
  have corrupt: "read_bytes corrupt_world [str ''a.txt''] = Some ([0xFF] @ secret_bytes @ [0xC3])"
    by (simp add: corrupt_world_def corrupt_bytes_def)
  have bad: "\<not> (0xFF :: byte) < 0x80" by simp
  note t1 = scan_file_unreadable_or_undecodable
    [where w = demo_world and p = "[str ''locked.txt'']", THEN conjunct1, THEN mp, OF locked]
  note t3 = scan_file_unreadable_or_undecodable
    [where xs = "[]" and bad = "0xFF" and ys = secret_bytes,
      THEN conjunct2, THEN conjunct2, THEN mp]
  have "utf8_decode_ignore ([] @ [0xFF] @ secret_bytes) = map unat [] @ map unat secret_bytes"
    using t3 bad secret_bytes_ascii by simp
  then have "utf8_decode_ignore ([] @ [0xFF] @ secret_bytes) = str ''sk-AAAAAAAAAAAAAAAAAAAAAAAA''"
    by (simp add: secret_bytes_text)
  with locked t1 corrupt corrupt_scan bad show ?thesis by (intro conjI)
qed

section \<open>A file that holds one OpenAI key\<close>

lemma matches_literal:
  "matches (literal ls @ rest) s \<longleftrightarrow> (\<exists>v. s = str ls @ v \<and> matches rest v)"
proof (induction ls arbitrary: s)
  case Nil
  show ?case by (simp add: literal_def str_def)
next
  case (Cons l ls)
  have "literal (l # ls) @ rest = Piece (\<lambda>x. x = of_char l) 1 (Some 1) # (literal ls @ rest)"
    by (simp add: literal_def lit_def)
  then have "matches (literal (l # ls) @ rest) s \<longleftrightarrow>
      (\<exists>c v. s = c # v \<and> c = of_char l \<and> matches (literal ls @ rest) v)"
    by (simp only: matches_single_char)
  also have "\<dots> \<longleftrightarrow> (\<exists>v. s = str (l # ls) @ v \<and> matches rest v)"
    unfolding Cons.IH by (auto simp: str_def)
  finally show ?case .
qed

lemma search_no_match:
  assumes "\<forall>i \<le> length t. match_lens r (drop i t) = []"
  shows "search r t pos ma = None"
  using assms
proof (induction r t pos ma rule: search.induct)
  case (1 r t pos ma)
  show ?case
  proof (cases "length t < pos")
    case True
    then show ?thesis by simp
  next
    case False
    with "1.prems" have "match_lens r (drop pos t) = []" by simp
    then have none: "match_at r (drop pos t) ma = None" by (simp add: match_at_def)
    from "1.IH" [OF False none "1.prems"] have "search r t (Suc pos) False = None" .
    with False none show ?thesis by simp
  qed
qed

lemma finditer_no_match:
  assumes "\<And>i n. \<not> matches r (take n (drop i t))"
  shows "finditer r t = []"
proof -
  have "match_lens r (drop i t) = []" for i
  proof (rule ccontr)
    assume "match_lens r (drop i t) \<noteq> []"
    then obtain n where "n \<in> set (match_lens r (drop i t))"
      by (cases "match_lens r (drop i t)") auto
    then have "matches r (take n (drop i t))" by (simp add: match_lens_iff)
    with assms show False by blast
  qed
  then have "\<forall>i \<le> length t. match_lens r (drop i t) = []" by blast
  then have "search r t 0 False = None" by (rule search_no_match)
  then show ?thesis by (simp add: finditer_def)
qed

lemma nth_take_drop:
  assumes "k < length (take n (drop i t))"
  shows "take n (drop i t) ! k = t ! (i + k) \<and> i + k < length t"
  using assms by auto

lemma alnum_not_space: "ascii_alnum c \<Longrightarrow> \<not> unicode_space c"
  by (auto simp: ascii_alnum_def unicode_space_def)

lemma match_lens_lit:
  "match_lens (lit c # ps) (c # u) = map (\<lambda>n. Suc n) (match_lens ps u)"
  by (simp add: lit_def greedy_count_def)

lemma match_lens_lit_Nil: "match_lens (lit c # ps) [] = []"
  by (simp add: lit_def greedy_count_def)

lemma match_lens_literal:
  "match_lens (literal ls @ rest) (str ls @ v) = map (\<lambda>n. length ls + n) (match_lens rest v)"
proof (induction ls)
  case Nil
  show ?case by (simp add: literal_def str_def)
next
  case (Cons l ls)
  have "match_lens (literal (l # ls) @ rest) (str (l # ls) @ v) =
      match_lens (lit (of_char l) # (literal ls @ rest)) (of_char l # (str ls @ v))"
    by (simp add: literal_def str_def)
  also have "\<dots> = map (\<lambda>n. Suc n) (match_lens (literal ls @ rest) (str ls @ v))"
    by (rule match_lens_lit)
  also have "\<dots> = map (\<lambda>n. length (l # ls) + n) (match_lens rest v)"
    by (simp add: Cons.IH)
  finally show ?case .
qed

lemma match_lens_class_last:
  "match_lens [Piece f lo None] v = rev [lo ..< Suc (length (takeWhile f v))]"
proof -
  have "concat (map (\<lambda>j. [j]) xs) = xs" for xs :: "nat list"
    by (induction xs) simp_all
  then show ?thesis by (simp add: greedy_count_def)
qed

lemma key_text_alnum:
  assumes "list_all ascii_alnum body" and "3 \<le> k" and "k < length (str ''sk-'' @ body)"
  shows "ascii_alnum ((str ''sk-'' @ body) ! k)"
proof -
  have l: "length (str ''sk-'') = 3" by (simp add: str_def)
  from assms(2,3) have "(str ''sk-'' @ body) ! k = body ! (k - 3)" and "k - 3 < length body"
    by (simp_all add: nth_append l)
  with assms(1) show ?thesis by (simp add: list_all_length)
qed


lemma no_project_token:
  assumes "list_all ascii_alnum body"
  shows "\<not> matches openai_project_token (take n (drop i (str ''sk-'' @ body)))"
proof
  assume "matches openai_project_token (take n (drop i (str ''sk-'' @ body)))"
  then obtain v where v: "take n (drop i (str ''sk-'' @ body)) = str ''proj-'' @ v"
    unfolding openai_project_token_def matches_literal by blast
  then have "4 < length (take n (drop i (str ''sk-'' @ body)))"
    and "take n (drop i (str ''sk-'' @ body)) ! 4 = 45"
    by (simp_all add: str_def)
  with nth_take_drop [of 4 n i "str ''sk-'' @ body"]
  have "(str ''sk-'' @ body) ! (i + 4) = 45" "i + 4 < length (str ''sk-'' @ body)"
    by simp_all
  with key_text_alnum [OF assms, of "i + 4"] have "ascii_alnum 45" by simp
  then show False by (simp add: ascii_alnum_def)
qed

lemma no_pinecone_key:
  assumes "list_all ascii_alnum body"
  shows "\<not> matches pinecone_server_key (take n (drop i (str ''sk-'' @ body)))"
proof
  assume "matches pinecone_server_key (take n (drop i (str ''sk-'' @ body)))"
  then obtain v where v: "take n (drop i (str ''sk-'' @ body)) = str ''pcsk_'' @ v"
    unfolding pinecone_server_key_def matches_literal by blast
  then have "4 < length (take n (drop i (str ''sk-'' @ body)))"
    and "take n (drop i (str ''sk-'' @ body)) ! 4 = 95"
    by (simp_all add: str_def)
  with nth_take_drop [of 4 n i "str ''sk-'' @ body"]
  have "(str ''sk-'' @ body) ! (i + 4) = 95" "i + 4 < length (str ''sk-'' @ body)"
    by simp_all
  with key_text_alnum [OF assms, of "i + 4"] have "ascii_alnum 95" by simp
  then show False by (simp add: ascii_alnum_def)
qed

lemma drop_nonempty: "drop k xs \<noteq> [] \<Longrightarrow> k < length xs"
  by simp

lemma no_bearer_token:
  assumes "list_all ascii_alnum body"
  shows "\<not> matches generic_bearer_token (take n (drop i (str ''sk-'' @ body)))"
proof
  let ?v = "take n (drop i (str ''sk-'' @ body))"
  assume "matches generic_bearer_token ?v"
  then have "bearer_shape unicode_space token_char_ignorecase ?v"
    by (simp only: bearer_language [symmetric] fullmatch_iff)
  from bearer_shape_tail [OF this] obtain ws tok
    where d: "drop 6 ?v = ws @ tok" and ws: "ws \<noteq> []" "list_all unicode_space ws"
    by blast
  from d ws(1) have "drop 6 ?v \<noteq> []" by simp
  then have len: "6 < length ?v" by (rule drop_nonempty)
  then have "?v ! 6 = hd (drop 6 ?v)" by (rule hd_drop_conv_nth [symmetric])
  also from d ws(1) have "\<dots> = hd ws" by simp
  finally have "unicode_space (?v ! 6)"
    using ws by (cases ws) simp_all
  with nth_take_drop [OF len]
  have "unicode_space ((str ''sk-'' @ body) ! (i + 6))" "i + 6 < length (str ''sk-'' @ body)"
    by simp_all
  with key_text_alnum [OF assms, of "i + 6"] alnum_not_space show False by simp
qed

lemma key_match_lens:
  assumes "length body = 24" and "list_all ascii_alnum body"
  shows "match_lens openai_secret (str ''sk-'' @ body) = [27, 26, 25, 24, 23]"
proof -
  from assms(2) have tw: "takeWhile ascii_alnum body = body"
    by (simp add: takeWhile_eq_all_conv list_all_iff)
  have "match_lens [Piece ascii_alnum 20 None] body =
      rev [20 ..< Suc (length (takeWhile ascii_alnum body))]"
    by (rule match_lens_class_last)
  also have "\<dots> = rev [20 ..< 25]"
    by (simp only: tw assms(1)) simp
  also have "\<dots> = [24, 23, 22, 21, 20 :: nat]"
    by (simp add: upt_rec)
  finally have last: "match_lens [Piece ascii_alnum 20 None] body = [24, 23, 22, 21, 20]" .
  have "match_lens openai_secret (str ''sk-'' @ body) =
      map (\<lambda>n. length ''sk-'' + n) (match_lens [Piece ascii_alnum 20 None] body)"
    unfolding openai_secret_def by (rule match_lens_literal)
  then show ?thesis
    by (simp only: last) simp
qed

lemma key_search_first:
  assumes "length body = 24" and "list_all ascii_alnum body"
  shows "search openai_secret (str ''sk-'' @ body) 0 False = Some (0, 27)"
proof -
  have "match_at openai_secret (drop 0 (str ''sk-'' @ body)) False = Some 27"
    by (simp add: match_at_def key_match_lens [OF assms])
  then show ?thesis
    by (subst search.simps) (simp only: option.case, simp)
qed

lemma search_past_end: "length t < pos \<Longrightarrow> search r t pos ma = None"
  by (subst search.simps) simp

lemma key_search_rest:
  assumes "length body = 24"
  shows "search openai_secret (str ''sk-'' @ body) 27 False = None"
proof -
  have l: "length (str ''sk-'' @ body) = 27"
    using assms by (simp add: str_def)
  have e: "openai_secret = lit 115 # (literal ''k-'' @ [Piece ascii_alnum 20 None])"
    by (simp add: openai_secret_def literal_def)
  have "match_lens openai_secret [] = []"
    unfolding e by (rule match_lens_lit_Nil)
  moreover from l have "drop 27 (str ''sk-'' @ body) = []" by simp
  ultimately have m: "match_at openai_secret (drop 27 (str ''sk-'' @ body)) False = None"
    by (simp only: match_at_def find.simps)
  have n: "search openai_secret (str ''sk-'' @ body) (Suc 27) False = None"
    using l by (intro search_past_end) simp
  show ?thesis
    by (subst search.simps) (simp only: m n l option.case, simp)
qed

lemma key_finditer:
  assumes "length body = 24" and "list_all ascii_alnum body"
  shows "finditer openai_secret (str ''sk-'' @ body) = [(0, 27)]"
proof -
  have rest: "finditer_from openai_secret (str ''sk-'' @ body) 27 False = []"
    by (subst finditer_from.simps) (simp only: key_search_rest [OF assms(1)] option.case)
  have ne: "((0::nat) = 27) = False" by simp
  show ?thesis
    unfolding finditer_def
    by (subst finditer_from.simps)
      (simp only: key_search_first [OF assms] option.case prod.case ne rest)
qed

lemma key_scan_text:
  assumes "length body = 24" and "list_all ascii_alnum body"
  shows "scan_text (str ''sk-'' @ body) = [(str ''OpenAI secret'', str ''sk-'' @ body)]"
proof -
  have l: "length (str ''sk-'' @ body) = 27"
    using assms(1) by (simp add: str_def)
  have "finditer openai_project_token (str ''sk-'' @ body) = []"
    by (rule finditer_no_match) (rule no_project_token [OF assms(2)])
  moreover have "finditer pinecone_server_key (str ''sk-'' @ body) = []"
    by (rule finditer_no_match) (rule no_pinecone_key [OF assms(2)])
  moreover have "finditer generic_bearer_token (str ''sk-'' @ body) = []"
    by (rule finditer_no_match) (rule no_bearer_token [OF assms(2)])
  moreover have "group0 (str ''sk-'' @ body) (0, 27) = str ''sk-'' @ body"
    using l by (simp add: group0_def)
  ultimately show ?thesis
    by (simp add: scan_text_def PATTERNS_def key_finditer [OF assms])
qed

lemma key_bytes_text:
  assumes "map unat bs = str ''sk-'' @ body" and "list_all ascii_alnum body"
  shows "universal_newlines (utf8_decode_ignore bs) = str ''sk-'' @ body"
proof -
  have small: "c < 128 \<and> c \<noteq> 13" if "c \<in> set (str ''sk-'' @ body)" for c
  proof -
    from that consider "c \<in> set (str ''sk-'')" | "c \<in> set body" by auto
    then show ?thesis
    proof cases
      case 1
      then show ?thesis by (auto simp: str_def)
    next
      case 2
      with assms(2) have "ascii_alnum c" by (simp add: list_all_iff)
      then show ?thesis by (auto simp: ascii_alnum_def)
    qed
  qed
  have "b < 0x80" if "b \<in> set bs" for b
  proof -
    from that have "unat b \<in> set (map unat bs)" by simp
    with assms(1) small have "unat b < 128" by simp
    then show ?thesis by (simp add: word_less_nat_alt)
  qed
  then have "list_all (\<lambda>b. b < 0x80) bs" by (simp add: list_all_iff)
  then have d: "utf8_decode_ignore bs = str ''sk-'' @ body"
    using assms(1) by (simp add: utf8_decode_ascii)
  from small have n: "13 \<notin> set (str ''sk-'' @ body)" by blast
  show ?thesis unfolding d by (rule universal_newlines_id [OF n])
qed

text \<open>
  C7: for a file whose whole content is \<open>sk-\<close> followed by exactly 24 ASCII letters
  and digits, \<open>scan_file\<close> returns exactly one finding; its label is
  \<open>OpenAI secret\<close> and its snippet is the whole content, which the report does not
  cut, since it is shorter than 60 characters.
\<close>

theorem scan_file_openai_key:
  assumes "read_bytes w p = Some bs" and "map unat bs = str ''sk-'' @ body"
    and "length body = 24" and "list_all ascii_alnum body"
  shows "snd (scan_file w p) = [(str ''OpenAI secret'', str ''sk-'' @ body)] \<and>
         take 60 (str ''sk-'' @ body) = str ''sk-'' @ body"
proof -
  from assms(1) key_bytes_text [OF assms(2,4)]
  have "snd (scan_file w p) = scan_text (str ''sk-'' @ body)"
    by (simp add: scan_file_read)
  moreover have "length (str ''sk-'' @ body) = 27"
    using assms(3) by (simp add: str_def)
  ultimately show ?thesis
    by (simp add: key_scan_text [OF assms(3,4)])
qed

theorem scan_file_openai_key_witness:
  "read_bytes leak_world [str ''a.txt''] = Some secret_bytes \<and>
   map unat secret_bytes = str ''sk-'' @ str ''AAAAAAAAAAAAAAAAAAAAAAAA'' \<and>
   length (str ''AAAAAAAAAAAAAAAAAAAAAAAA'') = 24 \<and>
   list_all ascii_alnum (str ''AAAAAAAAAAAAAAAAAAAAAAAA'') \<and>
   snd (scan_file leak_world [str ''a.txt'']) =
     [(str ''OpenAI secret'', str ''sk-'' @ str ''AAAAAAAAAAAAAAAAAAAAAAAA'')] \<and>
   take 60 (str ''sk-'' @ str ''AAAAAAAAAAAAAAAAAAAAAAAA'') =
     str ''sk-'' @ str ''AAAAAAAAAAAAAAAAAAAAAAAA''"
proof -
  have r: "read_bytes leak_world [str ''a.txt''] = Some secret_bytes"
    by (simp add: leak_world_def)
  have b: "map unat secret_bytes = str ''sk-'' @ str ''AAAAAAAAAAAAAAAAAAAAAAAA''"
    by (simp add: secret_bytes_def str_def)
  have l: "length (str ''AAAAAAAAAAAAAAAAAAAAAAAA'') = 24"
    by (simp add: str_def)
  have a: "list_all ascii_alnum (str ''AAAAAAAAAAAAAAAAAAAAAAAA'')"
    by (simp add: str_def ascii_alnum_def)
  from scan_file_openai_key [OF r b l a] r b l a show ?thesis by (intro conjI) simp_all
qed

end
